theory Spec2Isabelle
  imports Main "HOL-Library.AList"
begin

section \<open>SolSA command line: image renames, layers and configuration\<close>

text \<open>
  A shallow embedding of \<^verbatim>\<open>src/bin/solsa.js\<close>. JavaScript strings are modelled as
  \<^typ>\<open>string\<close>; the code only compares them, searches them for the characters
  \<^verbatim>\<open>/\<close> and \<^verbatim>\<open>:\<close>, and concatenates them. An optional property of an object is an
  \<^typ>\<open>'a option\<close> (\<^term>\<open>None\<close> is \<^verbatim>\<open>undefined\<close>). JavaScript tests such a
  property for truthiness, and the empty string is falsy: that is written out wherever
  the source has such a test.
\<close>

subsection \<open>Strings\<close>

text \<open>
  \<^verbatim>\<open>String.prototype.indexOf(c, fromIndex)\<close> for a one-character search string: the
  start position is clamped to \<open>[0, length]\<close>, the result is the index of the first
  occurrence at or after it, or \<open>-1\<close>.
\<close>

fun indexOf_scan :: "char \<Rightarrow> string \<Rightarrow> nat \<Rightarrow> int" where
  "indexOf_scan c [] i = - 1"
| "indexOf_scan c (x # xs) i = (if x = c then int i else indexOf_scan c xs (Suc i))"

definition indexOf :: "string \<Rightarrow> char \<Rightarrow> int \<Rightarrow> int" where
  "indexOf s c fromIndex =
     (let k = min (nat fromIndex) (length s) in indexOf_scan c (drop k s) k)"

text \<open>
  \<^verbatim>\<open>substring(start, end)\<close>: both positions are clamped to \<open>[0, length]\<close> and swapped
  when \<open>start > end\<close>; \<^verbatim>\<open>substring(start)\<close> runs to the end of the string.
\<close>

definition substring :: "string \<Rightarrow> int \<Rightarrow> int \<Rightarrow> string" where
  "substring s start end =
     (let a = min (nat start) (length s); b = min (nat end) (length s);
          lo = min a b; hi = max a b
      in take (hi - lo) (drop lo s))"

definition substring_from :: "string \<Rightarrow> int \<Rightarrow> string" where
  "substring_from s start = drop (min (nat start) (length s)) s"

definition includes_char :: "string \<Rightarrow> char \<Rightarrow> bool" where
  "includes_char s c = (c \<in> set s)"

text \<open>Truthiness of an optional string property: \<^verbatim>\<open>undefined\<close> and \<^verbatim>\<open>''\<close> are falsy.\<close>

definition truthy :: "string option \<Rightarrow> bool" where
  "truthy v = (case v of None \<Rightarrow> False | Some s \<Rightarrow> s \<noteq> [])"

subsection \<open>Image rules and contexts\<close>

record ImageRule =
  name :: string
  newName :: "string option"
  newTag :: "string option"

record Context =
  ctx_name :: string
  registry :: "string option"
  imageTag :: "string option"
  images :: "ImageRule list option"

text \<open>
  Lines 168 to 170: the position of the tag colon and the two parts of the reference. The
  pair is \<^verbatim>\<open>(newName, newTag)\<close> of the source, the spec's \<open>(repoPart, tag)\<close>.
\<close>

definition tag_pos :: "string \<Rightarrow> int" where
  "tag_pos n = indexOf n (CHR '':'') (indexOf n (CHR ''/'') 0)"

definition split_ref :: "string \<Rightarrow> string \<times> string option" where
  "split_ref n =
     (let pos = tag_pos n
      in (if pos = - 1 then n else substring n 0 pos,
          if pos = - 1 then None else Some (substring_from n (pos + 1))))"

text \<open>
  Line 171: \<^verbatim>\<open>context.images && context.images.find(...)\<close>. An array is truthy even when
  empty, and \<^verbatim>\<open>find\<close> returns the rule object found, which is truthy.
\<close>

definition kustomized :: "Context \<Rightarrow> string \<Rightarrow> bool" where
  "kustomized context n =
     (case images context of
        None \<Rightarrow> False
      | Some rules \<Rightarrow>
          find (\<lambda>image. name image = n \<or> name image = fst (split_ref n)) rules \<noteq> None)"

text \<open>Line 172: \<^verbatim>\<open>images.find(image => image.name === name)\<close> on the derived list so far.\<close>

definition encountered :: "ImageRule list \<Rightarrow> string \<Rightarrow> bool" where
  "encountered derived n = (find (\<lambda>image. name image = n) derived \<noteq> None)"

text \<open>Lines 173 and 174: the candidate rule \<^verbatim>\<open>k\<close> before the tag is looked at.\<close>

definition candidate :: "Context \<Rightarrow> string \<Rightarrow> ImageRule" where
  "candidate context n =
     \<lparr>name = n,
      newName = (if truthy (registry context) \<and> \<not> includes_char n (CHR ''/'')
                 then Some (the (registry context) @ ''/'' @ fst (split_ref n)) else None),
      newTag = None\<rparr>"

text \<open>One pass of the loop body (lines 168 to 180) over the derived list.\<close>

definition rename_step :: "Context \<Rightarrow> string \<Rightarrow> ImageRule list \<Rightarrow> ImageRule list" where
  "rename_step context n derived =
     (if kustomized context n then derived
      else if encountered derived n then derived
      else if truthy (snd (split_ref n)) then candidate context n # derived
      else derived @
        [(candidate context n)\<lparr>newTag :=
            (if truthy (imageTag context) then imageTag context else None)\<rparr>])"

text \<open>The loop of lines 167 to 181, from a given derived list.\<close>

fun rename_loop :: "Context \<Rightarrow> string list \<Rightarrow> ImageRule list \<Rightarrow> ImageRule list" where
  "rename_loop context [] derived = derived"
| "rename_loop context (n # ns) derived = rename_loop context ns (rename_step context n derived)"

definition derived_images :: "Context \<Rightarrow> string list \<Rightarrow> ImageRule list" where
  "derived_images context getImages = rename_loop context getImages []"

text \<open>Line 182: \<^verbatim>\<open>(context.images || []).concat(images)\<close>.\<close>

definition explicit_images :: "Context \<Rightarrow> ImageRule list" where
  "explicit_images context = (case images context of None \<Rightarrow> [] | Some rules \<Rightarrow> rules)"

definition finalizeImageRenames :: "Context \<Rightarrow> string list \<Rightarrow> ImageRule list" where
  "finalizeImageRenames context getImages =
     explicit_images context @ derived_images context getImages"

subsection \<open>The split as the specification words it\<close>

text \<open>
  The specification's rule "last colon after last slash", written from its words to be
  compared with \<^const>\<open>split_ref\<close>: the tag colon is the last colon of the reference,
  provided that it lies after the last path separator; otherwise there is no tag.
\<close>

definition spec_split_ref :: "string \<Rightarrow> string \<times> string option" where
  "spec_split_ref n =
     (let r = rev n
      in if CHR '':'' \<in> set (takeWhile (\<lambda>c. c \<noteq> CHR ''/'') r)
         then (rev (tl (dropWhile (\<lambda>c. c \<noteq> CHR '':'') r)),
               Some (rev (takeWhile (\<lambda>c. c \<noteq> CHR '':'') r)))
         else (n, None))"

subsection \<open>The same function on a store of objects\<close>

text \<open>
  JavaScript arrays and rule objects are shared by reference. To speak about what
  \<^verbatim>\<open>finalizeImageRenames\<close> mutates, the function is modelled a second time on an explicit
  store: an address is an index into the list of allocated objects, allocation appends,
  an array holds the addresses of its elements. The context's \<^verbatim>\<open>images\<close> property holds
  the address of its array.
\<close>

type_synonym addr = nat

datatype heap_obj = HRule ImageRule | HArray "addr list"

type_synonym heap = "heap_obj list"

record ContextRef =
  ref_name :: string
  ref_registry :: "string option"
  ref_imageTag :: "string option"
  ref_images :: "addr option"

definition rule_at :: "heap \<Rightarrow> addr \<Rightarrow> ImageRule option" where
  "rule_at h a =
     (if a < length h then (case h ! a of HRule r \<Rightarrow> Some r | HArray _ \<Rightarrow> None) else None)"

definition array_at :: "heap \<Rightarrow> addr \<Rightarrow> addr list" where
  "array_at h a =
     (if a < length h then (case h ! a of HArray elems \<Rightarrow> elems | HRule _ \<Rightarrow> []) else [])"

text \<open>A property assignment \<^verbatim>\<open>k.newName = v\<close> or \<^verbatim>\<open>k.newTag = v\<close> on the object at an address.\<close>

definition set_newName :: "addr \<Rightarrow> string option \<Rightarrow> heap \<Rightarrow> heap" where
  "set_newName k v h =
     (case rule_at h k of Some r \<Rightarrow> h[k := HRule (r\<lparr>newName := v\<rparr>)] | None \<Rightarrow> h)"

definition set_newTag :: "addr \<Rightarrow> string option \<Rightarrow> heap \<Rightarrow> heap" where
  "set_newTag k v h =
     (case rule_at h k of Some r \<Rightarrow> h[k := HRule (r\<lparr>newTag := v\<rparr>)] | None \<Rightarrow> h)"

definition name_is :: "heap \<Rightarrow> (string \<Rightarrow> bool) \<Rightarrow> addr \<Rightarrow> bool" where
  "name_is h P a = (case rule_at h a of Some r \<Rightarrow> P (name r) | None \<Rightarrow> False)"

definition h_kustomized :: "heap \<Rightarrow> ContextRef \<Rightarrow> string \<Rightarrow> bool" where
  "h_kustomized h context n =
     (case ref_images context of
        None \<Rightarrow> False
      | Some a \<Rightarrow>
          find (name_is h (\<lambda>m. m = n \<or> m = fst (split_ref n))) (array_at h a) \<noteq> None)"

definition h_encountered :: "heap \<Rightarrow> addr \<Rightarrow> string \<Rightarrow> bool" where
  "h_encountered h imgs n = (find (name_is h (\<lambda>m. m = n)) (array_at h imgs) \<noteq> None)"

text \<open>
  The loop body on the store; \<open>imgs\<close> is the address of the local array \<^verbatim>\<open>images\<close>.
  \<^verbatim>\<open>const k = { name }\<close> allocates, lines 174 and 178 assign to the new object,
  \<^verbatim>\<open>unshift\<close> and \<^verbatim>\<open>push\<close> update the local array in place.
\<close>

definition h_rename_step :: "ContextRef \<Rightarrow> string \<Rightarrow> addr \<Rightarrow> heap \<Rightarrow> heap" where
  "h_rename_step context n imgs h =
     (if h_kustomized h context n then h
      else if h_encountered h imgs n then h
      else
        let k = length h;
            h1 = h @ [HRule \<lparr>name = n, newName = None, newTag = None\<rparr>];
            h2 = (if truthy (ref_registry context) \<and> \<not> includes_char n (CHR ''/'')
                  then set_newName k
                         (Some (the (ref_registry context) @ ''/'' @ fst (split_ref n))) h1
                  else h1)
        in if truthy (snd (split_ref n)) then h2[imgs := HArray (k # array_at h2 imgs)]
           else
             let h3 = (if truthy (ref_imageTag context)
                       then set_newTag k (ref_imageTag context) h2 else h2)
             in h3[imgs := HArray (array_at h3 imgs @ [k])])"

fun h_rename_loop :: "ContextRef \<Rightarrow> string list \<Rightarrow> addr \<Rightarrow> heap \<Rightarrow> heap" where
  "h_rename_loop context [] imgs h = h"
| "h_rename_loop context (n # ns) imgs h =
     h_rename_loop context ns imgs (h_rename_step context n imgs h)"

text \<open>
  The whole function: \<^verbatim>\<open>const images = []\<close> allocates the local array, \<^verbatim>\<open>|| []\<close>
  allocates an empty array when the context has none, and \<^verbatim>\<open>concat\<close> allocates the
  array that is returned. The result is that array's address and the store after the call.
\<close>

definition h_finalizeImageRenames :: "ContextRef \<Rightarrow> string list \<Rightarrow> heap \<Rightarrow> addr \<times> heap" where
  "h_finalizeImageRenames context getImages h =
     (let imgs = length h;
          h1 = h_rename_loop context getImages imgs (h @ [HArray []]);
          (explicit, h2) = (case ref_images context of
                              None \<Rightarrow> (length h1, h1 @ [HArray []])
                            | Some a \<Rightarrow> (a, h1))
      in (length h2, h2 @ [HArray (array_at h2 explicit @ array_at h2 imgs)]))"

text \<open>What a context reference and an array of rules denote in a store.\<close>

definition rules_at :: "heap \<Rightarrow> addr \<Rightarrow> ImageRule list" where
  "rules_at h a = map (\<lambda>e. the (rule_at h e)) (array_at h a)"

definition context_at :: "heap \<Rightarrow> ContextRef \<Rightarrow> Context" where
  "context_at h context =
     \<lparr>ctx_name = ref_name context, registry = ref_registry context,
      imageTag = ref_imageTag context,
      images = map_option (rules_at h) (ref_images context)\<rparr>"

text \<open>
  A context reference is well formed in a store when its \<^verbatim>\<open>images\<close> property, if any, is
  the address of an array all of whose elements are rule objects.
\<close>

definition is_array :: "heap \<Rightarrow> addr \<Rightarrow> bool" where
  "is_array h a = (a < length h \<and> (case h ! a of HArray _ \<Rightarrow> True | HRule _ \<Rightarrow> False))"

definition wf_context :: "heap \<Rightarrow> ContextRef \<Rightarrow> bool" where
  "wf_context h context =
     (case ref_images context of
        None \<Rightarrow> True
      | Some a \<Rightarrow> is_array h a \<and> list_all (\<lambda>e. rule_at h e \<noteq> None) (array_at h a))"

subsection \<open>Layers and the archiver\<close>

text \<open>
  The payloads of resources and patches are JavaScript values; the code tests them for
  truthiness and otherwise only stores them.
\<close>

datatype json =
    JUndefined | JNull | JBool bool | JNum int | JStr string
  | JArr "json list" | JObj "(string \<times> json) list"

fun js_truthy :: "json \<Rightarrow> bool" where
  "js_truthy JUndefined = False"
| "js_truthy JNull = False"
| "js_truthy (JBool b) = b"
| "js_truthy (JNum i) = (i \<noteq> 0)"
| "js_truthy (JStr s) = (s \<noteq> [])"
| "js_truthy (JArr _) = True"
| "js_truthy (JObj _) = True"

record PatchTarget =
  path :: string
  target :: json

text \<open>
  \<^verbatim>\<open>resources\<close>, \<^verbatim>\<open>patches\<close>, \<^verbatim>\<open>patchesJSON\<close> and \<^verbatim>\<open>layers\<close> are plain JavaScript
  objects used as keyed containers. Their own properties are kept as an association list in
  the order of creation. Three things make a plain object differ from a map, and each is
  written out.

  First, the names that every plain object inherits from \<^verbatim>\<open>Object.prototype\<close>: a read
  \<^verbatim>\<open>o[k]\<close> of such a name that is not an own property yields the inherited member, not
  \<^verbatim>\<open>undefined\<close>.
\<close>

definition object_prototype_names :: "string list" where
  "object_prototype_names =
     [''constructor'', ''__defineGetter__'', ''__defineSetter__'', ''hasOwnProperty'',
      ''__lookupGetter__'', ''__lookupSetter__'', ''isPrototypeOf'', ''propertyIsEnumerable'',
      ''toString'', ''valueOf'', ''__proto__'', ''toLocaleString'']"

definition inherited_name :: "string \<Rightarrow> bool" where
  "inherited_name k = (k \<in> set object_prototype_names)"

text \<open>
  Second, the assignment \<^verbatim>\<open>o[k] = v\<close>: for \<^verbatim>\<open>__proto__\<close> it calls the inherited setter,
  which changes the prototype of \<^verbatim>\<open>o\<close> (or does nothing) and creates no own property.
  For every other name it replaces the value of an existing own property in place, or
  creates the property at the end (\<^const>\<open>AList.update\<close>); the other inherited members are
  writable data properties, which an assignment shadows. The values assigned here are plain
  data, so the changed prototype does not change what later reads and assignments do.
\<close>

definition set_property :: "string \<Rightarrow> 'v \<Rightarrow> (string \<times> 'v) list \<Rightarrow> (string \<times> 'v) list" where
  "set_property k v props = (if k = ''__proto__'' then props else AList.update k v props)"

text \<open>
  Third, the order in which \<^verbatim>\<open>Object.keys\<close> and \<^verbatim>\<open>Object.values\<close> enumerate the own
  properties: first the names that are array indices (canonical decimal numerals below
  \<open>2\<^sup>3\<^sup>2 - 1\<close>), in ascending numeric order, then all other names in the order of their
  creation.
\<close>

definition index_value :: "string \<Rightarrow> int" where
  "index_value k = foldl (\<lambda>a c. 10 * a + (of_char c - 48)) 0 k"

definition is_array_index :: "string \<Rightarrow> bool" where
  "is_array_index k =
     (k \<noteq> [] \<and> list_all (\<lambda>c. c \<in> set ''0123456789'') k \<and>
      (hd k \<noteq> CHR ''0'' \<or> length k = 1) \<and> index_value k < 4294967295)"

definition own_entries :: "(string \<times> 'v) list \<Rightarrow> (string \<times> 'v) list" where
  "own_entries props =
     sort_key (\<lambda>(k, v). index_value k) (filter (\<lambda>(k, v). is_array_index k) props) @
     filter (\<lambda>(k, v). \<not> is_array_index k) props"

record Layer =
  layer_name :: string
  resources :: "(string \<times> json) list"
  bases :: "string list"
  patches :: "(string \<times> json) list"
  patchesJSON :: "(string \<times> json \<times> PatchTarget) list"
  layer_images :: "ImageRule list"

definition new_Layer :: "string \<Rightarrow> Layer" where
  "new_Layer n =
     \<lparr>layer_name = n, resources = [], bases = [], patches = [], patchesJSON = [],
      layer_images = []\<rparr>"

record SolsaArchiver =
  outputRoot :: string
  layers :: "(string \<times> Layer) list"

definition new_SolsaArchiver :: "string \<Rightarrow> SolsaArchiver" where
  "new_SolsaArchiver root = \<lparr>outputRoot = root, layers = [(''base'', new_Layer ''base'')]\<rparr>"

text \<open>
  \<^verbatim>\<open>getLayer\<close> reads \<^verbatim>\<open>this.layers[layer]\<close>. An own property is a layer, and is returned.
  Otherwise, for a name inherited from \<^verbatim>\<open>Object.prototype\<close> the read is not
  \<^verbatim>\<open>undefined\<close>: nothing is created and the inherited member is returned, which is no
  layer (\<^term>\<open>None\<close>). For any other name a layer is created, registered and returned.
  The callers mutate the layer object; \<open>set_layer\<close> writes the mutated layer back under
  its key.
\<close>

definition getLayer :: "string \<Rightarrow> SolsaArchiver \<Rightarrow> Layer option \<times> SolsaArchiver" where
  "getLayer l sa =
     (case map_of (layers sa) l of
        Some L \<Rightarrow> (Some L, sa)
      | None \<Rightarrow>
          (if inherited_name l then (None, sa)
           else (Some (new_Layer l), sa\<lparr>layers := layers sa @ [(l, new_Layer l)]\<rparr>)))"

definition set_layer :: "string \<Rightarrow> Layer \<Rightarrow> SolsaArchiver \<Rightarrow> SolsaArchiver" where
  "set_layer l L sa = sa\<lparr>layers := AList.update l L (layers sa)\<rparr>"

text \<open>The default parameter \<^verbatim>\<open>layer = 'base'\<close> applies when the argument is \<^verbatim>\<open>undefined\<close>.\<close>

definition layer_or_base :: "string option \<Rightarrow> string" where
  "layer_or_base l = (case l of None \<Rightarrow> ''base'' | Some n \<Rightarrow> n)"

text \<open>
  What the code can throw: a \<^verbatim>\<open>TypeError\<close> of the language, an error of the file system
  (\<^verbatim>\<open>EEXIST\<close>, \<^verbatim>\<open>ENOENT\<close> and the like), and the exception of \<^verbatim>\<open>yaml.safeDump\<close>.
\<close>

datatype error = TypeError | SystemError | YAMLException

text \<open>
  The three \<^verbatim>\<open>add\<close> methods. On what \<^verbatim>\<open>getLayer\<close> returns for an inherited name, the
  property \<^verbatim>\<open>resources\<close> (\<^verbatim>\<open>patches\<close>, \<^verbatim>\<open>patchesJSON\<close>) is \<^verbatim>\<open>undefined\<close> and the
  assignment into it throws a \<^verbatim>\<open>TypeError\<close>. \<^verbatim>\<open>addJSONPatch\<close> also reads
  \<^verbatim>\<open>target.path\<close>, which throws a \<^verbatim>\<open>TypeError\<close> when the item has no
  \<^verbatim>\<open>JSONPatchTarget\<close>.
\<close>

definition addResource ::
  "json \<Rightarrow> string \<Rightarrow> string option \<Rightarrow> SolsaArchiver \<Rightarrow> error + SolsaArchiver" where
  "addResource ob fname l sa =
     (case getLayer (layer_or_base l) sa of
        (None, sa') \<Rightarrow> Inl TypeError
      | (Some L, sa') \<Rightarrow>
          Inr (set_layer (layer_or_base l)
                 (L\<lparr>resources := set_property fname ob (resources L)\<rparr>) sa'))"

definition addPatch ::
  "json \<Rightarrow> string \<Rightarrow> string option \<Rightarrow> SolsaArchiver \<Rightarrow> error + SolsaArchiver" where
  "addPatch p fname l sa =
     (case getLayer (layer_or_base l) sa of
        (None, sa') \<Rightarrow> Inl TypeError
      | (Some L, sa') \<Rightarrow>
          Inr (set_layer (layer_or_base l)
                 (L\<lparr>patches := set_property fname p (patches L)\<rparr>) sa'))"

definition addJSONPatch ::
  "json \<Rightarrow> PatchTarget option \<Rightarrow> string option \<Rightarrow> SolsaArchiver \<Rightarrow> error + SolsaArchiver" where
  "addJSONPatch p tgt l sa =
     (case getLayer (layer_or_base l) sa of
        (None, sa') \<Rightarrow> Inl TypeError
      | (Some L, sa') \<Rightarrow>
          (case tgt of
             None \<Rightarrow> Inl TypeError
           | Some t \<Rightarrow>
               Inr (set_layer (layer_or_base l)
                      (L\<lparr>patchesJSON := set_property (path t) (p, t) (patchesJSON L)\<rparr>) sa')))"

subsection \<open>Collecting the resources (lines 223 to 231)\<close>

record Item =
  obj :: json
  JSONPatch :: json
  JSONPatchTarget :: "PatchTarget option"
  patch :: json
  item_name :: string
  layer :: "string option"

text \<open>
  The state the loop runs in: the archiver and the process-wide warning counter
  \<^verbatim>\<open>errors\<close>.
\<close>

record Run =
  sa :: SolsaArchiver
  errors :: nat

definition classify :: "Item \<Rightarrow> Run \<Rightarrow> error + Run" where
  "classify item run =
     (if js_truthy (obj item)
      then (case addResource (obj item) (item_name item) (layer item) (sa run) of
              Inl e \<Rightarrow> Inl e
            | Inr sa' \<Rightarrow> Inr (run\<lparr>sa := sa'\<rparr>))
      else if js_truthy (JSONPatch item)
      then (case addJSONPatch (JSONPatch item) (JSONPatchTarget item) (layer item) (sa run) of
              Inl e \<Rightarrow> Inl e
            | Inr sa' \<Rightarrow> Inr (run\<lparr>sa := sa'\<rparr>))
      else if js_truthy (patch item)
      then (case addPatch (patch item) (item_name item) (layer item) (sa run) of
              Inl e \<Rightarrow> Inl e
            | Inr sa' \<Rightarrow> Inr (run\<lparr>sa := sa'\<rparr>))
      else Inr run)"

fun collect :: "Item list \<Rightarrow> Run \<Rightarrow> error + Run" where
  "collect [] run = Inr run"
| "collect (item # items) run =
     (case classify item run of Inl e \<Rightarrow> Inl e | Inr run' \<Rightarrow> collect items run')"

subsection \<open>finalize (lines 185 to 216)\<close>

record App =
  getImages :: "string list"
  app_name :: "string option"

record Config =
  contexts :: "Context list"
  current_context :: "string option"

record Kustomization =
  apiVersion :: string
  kind :: string
  k_bases :: "string list"
  k_resources :: "string list"
  k_patches :: "string list"
  patchesJson6902 :: "PatchTarget list"
  k_images :: "ImageRule list"
  commonAnnotations :: "(string \<times> string) list option"

datatype document = Manifest json | KustomizationFile Kustomization

text \<open>
  The first loop of \<^verbatim>\<open>finalize\<close>, over the contexts of the configuration. On what
  \<^verbatim>\<open>getLayer\<close> returns for an inherited name, \<^verbatim>\<open>bases\<close> is \<^verbatim>\<open>undefined\<close> and
  \<^verbatim>\<open>bases.push\<close> throws a \<^verbatim>\<open>TypeError\<close>.
\<close>

definition finalize_context :: "App \<Rightarrow> Context \<Rightarrow> SolsaArchiver \<Rightarrow> error + SolsaArchiver" where
  "finalize_context app context s =
     (case getLayer (ctx_name context) s of
        (None, s') \<Rightarrow> Inl TypeError
      | (Some contextLayer, s') \<Rightarrow>
          Inr (set_layer (ctx_name context)
                 (contextLayer\<lparr>bases := bases contextLayer @ [''./../base''],
                    layer_images := finalizeImageRenames context (getImages app)\<rparr>) s'))"

fun finalize_contexts :: "App \<Rightarrow> Context list \<Rightarrow> SolsaArchiver \<Rightarrow> error + SolsaArchiver" where
  "finalize_contexts app [] s = Inr s"
| "finalize_contexts app (context # cs) s =
     (case finalize_context app context s of
        Inl e \<Rightarrow> Inl e
      | Inr s' \<Rightarrow> finalize_contexts app cs s')"

definition kustom :: "App \<Rightarrow> Layer \<Rightarrow> Kustomization" where
  "kustom app l =
     \<lparr>apiVersion = ''kustomize.config.k8s.io/v1beta1'',
      kind = ''Kustomization'',
      k_bases = bases l,
      k_resources = map fst (own_entries (resources l)),
      k_patches = map fst (own_entries (patches l)),
      patchesJson6902 = map (\<lambda>(k, p, t). t) (own_entries (patchesJSON l)),
      k_images = layer_images l,
      commonAnnotations =
        (if truthy (app_name app) then Some [(''solsa.ibm.com/app'', the (app_name app))]
         else None)\<rparr>"

text \<open>
  The files of one layer, in the order of the calls of \<^verbatim>\<open>writeToFile\<close>, each with the
  layer's directory and its file name.
\<close>

definition layer_files :: "App \<Rightarrow> Layer \<Rightarrow> (string \<times> string \<times> document) list" where
  "layer_files app l =
     map (\<lambda>(fname, ob). (layer_name l, fname, Manifest ob)) (own_entries (resources l)) @
     map (\<lambda>(fname, p). (layer_name l, fname, Manifest p)) (own_entries (patches l)) @
     map (\<lambda>(fname, p, t). (layer_name l, fname, Manifest p)) (own_entries (patchesJSON l)) @
     [(layer_name l, ''kustomization.yaml'', KustomizationFile (kustom app l))]"

text \<open>
  The second loop works on the file system. \<^verbatim>\<open>fs.mkdirSync\<close> and \<^verbatim>\<open>writeToFile\<close>
  (\<^verbatim>\<open>yaml.safeDump\<close>, then \<^verbatim>\<open>fs.writeFileSync\<close>) are called on the \<^verbatim>\<open>path.join\<close> of the
  segments given; each call can throw, which ends \<^verbatim>\<open>finalize\<close>. What the file system and
  the serializer do is a parameter \<open>fsys\<close> of the model, a function from the state of the
  file system and a call to an error or the next state: it decides, for one, whether a
  directory can be made for a layer whose name is empty, has a path separator, or names a
  directory that exists.
\<close>

datatype fs_call = MkdirSync "string list" | WriteFile "string list" document

fun run_calls :: "('w \<Rightarrow> fs_call \<Rightarrow> error + 'w) \<Rightarrow> fs_call list \<Rightarrow> 'w \<Rightarrow> error + 'w" where
  "run_calls fsys [] w = Inr w"
| "run_calls fsys (c # cs) w =
     (case fsys w c of Inl e \<Rightarrow> Inl e | Inr w' \<Rightarrow> run_calls fsys cs w')"

definition layer_calls :: "string \<Rightarrow> App \<Rightarrow> Layer \<Rightarrow> fs_call list" where
  "layer_calls root app l =
     MkdirSync [root, layer_name l] #
     map (\<lambda>(dir, fname, doc). WriteFile [root, dir, fname] doc) (layer_files app l)"

text \<open>
  \<^verbatim>\<open>finalize\<close>: the contexts, then \<^verbatim>\<open>mkdirSync(this.outputRoot)\<close>, then the layers in the
  order of \<^verbatim>\<open>Object.values(this.layers)\<close>. When it returns, it has left the archiver, the
  files written (directory, file name, content) and the file system.
\<close>

definition finalize ::
  "('w \<Rightarrow> fs_call \<Rightarrow> error + 'w) \<Rightarrow> Config \<Rightarrow> App \<Rightarrow> SolsaArchiver \<Rightarrow> 'w \<Rightarrow>
     error + (SolsaArchiver \<times> (string \<times> string \<times> document) list \<times> 'w)" where
  "finalize fsys config app s w =
     (case finalize_contexts app (contexts config) s of
        Inl e \<Rightarrow> Inl e
      | Inr s' \<Rightarrow>
          (case run_calls fsys
                  (MkdirSync [outputRoot s'] #
                   concat (map (\<lambda>(k, l). layer_calls (outputRoot s') app l)
                             (own_entries (layers s')))) w of
             Inl e \<Rightarrow> Inl e
           | Inr w' \<Rightarrow>
               Inr (s', concat (map (\<lambda>(k, l). layer_files app l) (own_entries (layers s'))),
                    w')))"

text \<open>The kustomization manifests written into the directory of one layer.\<close>

definition kustomizations_in ::
  "(string \<times> string \<times> document) list \<Rightarrow> string \<Rightarrow> Kustomization list" where
  "kustomizations_in files dir =
     concat (map (\<lambda>(d, fname, doc).
        (case doc of KustomizationFile k \<Rightarrow> (if d = dir then [k] else []) | Manifest _ \<Rightarrow> []))
        files)"

subsection \<open>init (lines 32 to 64)\<close>

text \<open>
  What \<^verbatim>\<open>yaml.safeLoad(fs.readFileSync(name))\<close> does is a parameter of the model:
  either call throws (no file, or text that is not YAML), or the loader returns a value.
  For an empty document it returns \<^verbatim>\<open>undefined\<close>; a document can also be \<^verbatim>\<open>null\<close>, a
  primitive (a string, a number or a boolean: \<open>YScalar\<close>), or an object (a mapping, a
  sequence, or the \<^verbatim>\<open>Date\<close> of a timestamp), of which the model keeps the \<^verbatim>\<open>contexts\<close>
  property when that is an array, and the \<^verbatim>\<open>context\<close> property.
\<close>

datatype yaml_value =
    YUndefined | YNull | YScalar
  | YObject "Context list option" "string option"

datatype load_result = LoadThrows | Loaded yaml_value

text \<open>
  The value \<^verbatim>\<open>init\<close> returns: the variable \<^verbatim>\<open>config\<close> holds whatever the loader
  returned, which need not be an object.
\<close>

datatype config_value = CUndefined | CNull | CScalar | CObject Config

text \<open>
  Lines 33 to 39: \<^verbatim>\<open>argv.context\<close>, or else the output of \<^verbatim>\<open>kubectl\<close>
  (\<^term>\<open>None\<close> when the command fails, which is a warning).
\<close>

definition init_context :: "string option \<Rightarrow> string option \<Rightarrow> nat \<Rightarrow> string option \<times> nat" where
  "init_context argv_context kubectl errs =
     (if truthy argv_context then (argv_context, errs)
      else (case kubectl of None \<Rightarrow> (None, errs + 1) | Some out \<Rightarrow> (Some out, errs)))"

text \<open>
  Lines 41 to 63. The assignment \<^verbatim>\<open>config = yaml.safeLoad(...)\<close> has happened when
  \<^verbatim>\<open>config.contexts\<close> is read: on \<^verbatim>\<open>undefined\<close> and \<^verbatim>\<open>null\<close> the read throws into the
  \<^verbatim>\<open>catch\<close>; on a scalar it yields \<^verbatim>\<open>undefined\<close>, and the assignment
  \<^verbatim>\<open>config.contexts = []\<close> to a primitive has no effect (the file is not in strict mode).
\<close>

definition init :: "string option \<Rightarrow> string option \<Rightarrow> load_result \<Rightarrow> nat \<Rightarrow> config_value \<times> nat" where
  "init argv_context kubectl loaded errs =
     (case init_context argv_context kubectl errs of
        (context, errs1) \<Rightarrow>
          (case loaded of
             LoadThrows \<Rightarrow> (CObject \<lparr>contexts = [], current_context = None\<rparr>, errs1 + 1)
           | Loaded YUndefined \<Rightarrow> (CUndefined, errs1 + 1)
           | Loaded YNull \<Rightarrow> (CNull, errs1 + 1)
           | Loaded YScalar \<Rightarrow> (CScalar, errs1 + 1)
           | Loaded (YObject None cur) \<Rightarrow>
               (CObject \<lparr>contexts = [], current_context = cur\<rparr>, errs1 + 1)
           | Loaded (YObject (Some cs) cur) \<Rightarrow>
               (if truthy context
                then (if find (\<lambda>c. ctx_name c = the context) cs = None
                      then (CObject \<lparr>contexts = cs, current_context = cur\<rparr>, errs1 + 1)
                      else (CObject \<lparr>contexts = cs, current_context = context\<rparr>, errs1))
                else (CObject \<lparr>contexts = cs, current_context = cur\<rparr>, errs1))))"

subsection \<open>The yaml command (lines 103 to 232)\<close>

text \<open>
  Lines 104 to 114 read \<^verbatim>\<open>config.contexts.length\<close> or \<^verbatim>\<open>config.context\<close>, and
  \<^verbatim>\<open>finalize\<close> iterates over \<^verbatim>\<open>config.contexts\<close>: on a configuration that is not an
  object these throw a \<^verbatim>\<open>TypeError\<close> that nothing catches. The resources the application
  yields are a parameter.
\<close>

definition yaml_warnings :: "string option \<Rightarrow> config_value \<Rightarrow> nat \<Rightarrow> error + nat" where
  "yaml_warnings output config errs =
     (case config of
        CUndefined \<Rightarrow> Inl TypeError
      | CNull \<Rightarrow> Inl TypeError
      | CScalar \<Rightarrow> (if truthy output then Inl TypeError else Inr (errs + 1))
      | CObject c \<Rightarrow>
          Inr (if truthy output
               then (if length (contexts c) = 0 then errs + 1 else errs)
               else (if \<not> truthy (current_context c) then errs + 1 else errs)))"

definition yamlCommand ::
  "('w \<Rightarrow> fs_call \<Rightarrow> error + 'w) \<Rightarrow> string option \<Rightarrow> config_value \<Rightarrow> App \<Rightarrow> Item list \<Rightarrow>
     string \<Rightarrow> nat \<Rightarrow> 'w \<Rightarrow> error + ((string \<times> string \<times> document) list \<times> nat)" where
  "yamlCommand fsys output config app items root errs w =
     (case yaml_warnings output config errs of
        Inl e \<Rightarrow> Inl e
      | Inr errs1 \<Rightarrow>
          (case collect items \<lparr>sa = new_SolsaArchiver root, errors = errs1\<rparr> of
             Inl e \<Rightarrow> Inl e
           | Inr run \<Rightarrow>
               (case config of
                  CObject c \<Rightarrow>
                    (case finalize fsys c app (sa run) w of
                       Inl e \<Rightarrow> Inl e
                     | Inr (s', files, w') \<Rightarrow> Inr (files, errors run))
                | _ \<Rightarrow> Inl TypeError)))"

subsection \<open>Auxiliary notions for the statements\<close>

text \<open>
  The text of a reference before its first path separator; empty when it has none. The
  search for the tag colon starts behind it.
\<close>

definition before_first_slash :: "string \<Rightarrow> string" where
  "before_first_slash n =
     (if CHR ''/'' \<in> set n then takeWhile (\<lambda>c. c \<noteq> CHR ''/'') n else [])"

text \<open>
  A file system on which every call succeeds. It stands for the real one only on runs whose
  layers and files have ordinary names, written into a new temporary directory; it is used
  for concrete runs of that kind, and every statement about \<^verbatim>\<open>finalize\<close> is for an
  arbitrary file system.
\<close>

definition accepting_fs :: "unit \<Rightarrow> fs_call \<Rightarrow> error + unit" where
  "accepting_fs w c = Inr w"

text \<open>The layer registered under a name, or a new layer of that name when there is none.\<close>

definition layer_at :: "SolsaArchiver \<Rightarrow> string \<Rightarrow> Layer" where
  "layer_at s l = (case map_of (layers s) l of None \<Rightarrow> new_Layer l | Some L \<Rightarrow> L)"

text \<open>
  What holds of the archiver all along: the keys of \<^verbatim>\<open>layers\<close> are distinct and
  include \<^verbatim>\<open>base\<close>, every layer is registered under its own name, and no key is a
  name inherited from \<^verbatim>\<open>Object.prototype\<close>. Before \<^verbatim>\<open>finalize\<close>, no layer has a base.
\<close>

definition archiver_ok :: "SolsaArchiver \<Rightarrow> bool" where
  "archiver_ok s =
     (distinct (map fst (layers s)) \<and> ''base'' \<in> set (map fst (layers s)) \<and>
      list_all (\<lambda>(k, l). layer_name l = k) (layers s) \<and>
      list_all (\<lambda>k. \<not> inherited_name k) (map fst (layers s)))"

definition no_bases :: "SolsaArchiver \<Rightarrow> bool" where
  "no_bases s = list_all (\<lambda>(k, l). bases l = []) (layers s)"

section \<open>Properties\<close>

subsection \<open>Splitting a reference\<close>

lemma indexOf_scan_eq:
  "indexOf_scan c s i =
     (if c \<in> set s then int (i + length (takeWhile (\<lambda>x. x \<noteq> c) s)) else - 1)"
  by (induction s arbitrary: i) auto

lemma length_takeWhile_less_mem:
  "x \<in> set xs \<Longrightarrow> \<not> P x \<Longrightarrow> length (takeWhile P xs) < length xs"
  by (induction xs) auto

lemma before_first_slash_append:
  "before_first_slash n @ drop (length (before_first_slash n)) n = n"
  by (simp add: before_first_slash_def dropWhile_eq_drop [symmetric])

lemma indexOf_slash:
  "min (nat (indexOf n (CHR ''/'') 0)) (length n) = length (before_first_slash n)"
  by (simp add: indexOf_def indexOf_scan_eq before_first_slash_def length_takeWhile_le
      min_absorb1)

lemma tag_pos_eq:
  "tag_pos n =
     (if CHR '':'' \<in> set (drop (length (before_first_slash n)) n)
      then int (length (before_first_slash n) +
                length (takeWhile (\<lambda>c. c \<noteq> CHR '':'')
                  (drop (length (before_first_slash n)) n)))
      else - 1)"
  unfolding tag_pos_def indexOf_def [of n "CHR '':''"] Let_def indexOf_slash
  by (simp add: indexOf_scan_eq)

lemma split_ref_eq:
  "split_ref n =
     (let rest = drop (length (before_first_slash n)) n
      in if CHR '':'' \<in> set rest
         then (before_first_slash n @ takeWhile (\<lambda>c. c \<noteq> CHR '':'') rest,
               Some (tl (dropWhile (\<lambda>c. c \<noteq> CHR '':'') rest)))
         else (n, None))"
proof -
  define h where "h = before_first_slash n"
  define rest where "rest = drop (length h) n"
  define t where "t = takeWhile (\<lambda>c. c \<noteq> CHR '':'') rest"
  have n_eq: "n = h @ rest"
    by (simp add: h_def rest_def before_first_slash_append)
  show ?thesis
  proof (cases "CHR '':'' \<in> set rest")
    case False
    then show ?thesis
      using tag_pos_eq [of n] by (simp add: split_ref_def rest_def h_def Let_def)
  next
    case True
    have pos: "tag_pos n = int (length h + length t)"
      using True tag_pos_eq [of n] by (simp add: rest_def h_def t_def)
    have t_less: "length t < length rest"
      unfolding t_def using True by (rule length_takeWhile_less_mem) simp
    have first: "substring n 0 (int (length h + length t)) = h @ t"
    proof -
      have "take (length t) rest = t"
        unfolding t_def by (rule takeWhile_eq_take [symmetric])
      moreover have "nat (int (length h + length t)) = length h + length t"
        by simp
      ultimately show ?thesis
        using t_less unfolding substring_def n_eq by (simp add: min_absorb1)
    qed
    have second: "substring_from n (int (length h + length t) + 1) =
        tl (dropWhile (\<lambda>c. c \<noteq> CHR '':'') rest)"
    proof -
      have "nat (int (length h + length t) + 1) = length h + Suc (length t)"
        by simp
      moreover have "drop (Suc (length t)) rest = tl (dropWhile (\<lambda>c. c \<noteq> CHR '':'') rest)"
        unfolding t_def by (simp add: dropWhile_eq_drop drop_Suc tl_drop)
      ultimately show ?thesis
        using t_less unfolding substring_from_def n_eq by (simp add: min_absorb1)
    qed
    have "split_ref n = (h @ t, Some (tl (dropWhile (\<lambda>c. c \<noteq> CHR '':'') rest)))"
      unfolding split_ref_def Let_def pos first second by simp
    with True show ?thesis
      by (simp add: Let_def rest_def [symmetric] h_def [symmetric] t_def [symmetric])
  qed
qed

lemma slash_fst_split_ref: "CHR ''/'' \<in> set (fst (split_ref n)) \<longleftrightarrow> CHR ''/'' \<in> set n"
proof (cases "CHR ''/'' \<in> set n")
  case False
  have "set (fst (split_ref n)) \<subseteq> set n"
    by (auto simp: split_ref_def substring_def Let_def dest: in_set_takeD in_set_dropD)
  with False show ?thesis by auto
next
  case True
  define rest where "rest = dropWhile (\<lambda>c. c \<noteq> CHR ''/'') n"
  from True have "rest \<noteq> []" by (simp add: rest_def)
  then obtain ys where rest: "rest = CHR ''/'' # ys"
    using hd_dropWhile [of "\<lambda>c. c \<noteq> CHR ''/''" n] by (cases rest) (auto simp: rest_def)
  have "drop (length (before_first_slash n)) n = rest"
    using True by (simp add: before_first_slash_def rest_def dropWhile_eq_drop [symmetric])
  then have "CHR ''/'' \<in> set (fst (split_ref n))"
    using True by (simp add: split_ref_eq Let_def rest)
  with True show ?thesis by simp
qed

subsection \<open>The derived list\<close>

lemma encountered_iff: "encountered derived n \<longleftrightarrow> n \<in> name ` set derived"
  by (auto simp: encountered_def find_None_iff)

lemma kustomized_iff:
  "kustomized c n \<longleftrightarrow>
     (\<exists>r \<in> set (explicit_images c). name r = n \<or> name r = fst (split_ref n))"
  by (auto simp: kustomized_def explicit_images_def find_None_iff split: option.splits)

lemma name_candidate: "name (candidate c n) = n"
  by (simp add: candidate_def)

lemma newTag_candidate: "newTag (candidate c n) = None"
  by (simp add: candidate_def)

lemma names_rename_step:
  "name ` set (rename_step c n derived) =
     name ` set derived \<union> (if kustomized c n then {} else {n})"
  by (auto simp: rename_step_def encountered_iff name_candidate)

lemma names_rename_loop:
  "name ` set (rename_loop c ns derived) =
     name ` set derived \<union> {n \<in> set ns. \<not> kustomized c n}"
  by (induction ns arbitrary: derived) (auto simp: names_rename_step)

lemma distinct_rename_step:
  "distinct (map name derived) \<Longrightarrow> distinct (map name (rename_step c n derived))"
  by (auto simp: rename_step_def encountered_iff name_candidate)

lemma distinct_rename_loop:
  "distinct (map name derived) \<Longrightarrow> distinct (map name (rename_loop c ns derived))"
  by (induction ns arbitrary: derived) (auto simp: distinct_rename_step)

lemma rename_step_seen:
  "n \<in> name ` set derived \<Longrightarrow> rename_step c n derived = derived"
  by (simp add: rename_step_def encountered_iff)

lemma rename_step_kustomized:
  "kustomized c n \<Longrightarrow> rename_step c n derived = derived"
  by (simp add: rename_step_def)

lemma rename_loop_append:
  "rename_loop c (xs @ ys) derived = rename_loop c ys (rename_loop c xs derived)"
  by (induction xs arbitrary: derived) auto

lemma rename_step_again:
  "n \<in> set ns \<Longrightarrow> rename_step c n (rename_loop c ns derived) = rename_loop c ns derived"
  by (cases "kustomized c n")
     (auto simp: rename_step_kustomized names_rename_loop intro!: rename_step_seen)

subsection \<open>Claims about the image rules\<close>

lemma filter_unique_length:
  "distinct (map f xs) \<Longrightarrow> y \<in> f ` set xs \<Longrightarrow> length (filter (\<lambda>x. f x = y) xs) = 1"
proof (induction xs)
  case Nil
  then show ?case by simp
next
  case (Cons x xs)
  show ?case
  proof (cases "f x = y")
    case True
    with Cons.prems have "y \<notin> f ` set xs" by auto
    then have "filter (\<lambda>x. f x = y) xs = []" by (auto simp: filter_empty_conv)
    with True show ?thesis by simp
  next
    case False
    with Cons show ?thesis by auto
  qed
qed

text \<open>
  Claim C1. The list \<^verbatim>\<open>finalizeImageRenames\<close> returns starts with the context's
  explicit rules, in their order, and continues with the derived rules and nothing else.
  The names of the derived rules are exactly the declared references for which no explicit
  rule is named like the reference or like its parsed first part: a reference with such an
  explicit rule gets no derived rule.
\<close>

theorem explicit_rules_first:
  "take (length (explicit_images c)) (finalizeImageRenames c ns) = explicit_images c \<and>
   drop (length (explicit_images c)) (finalizeImageRenames c ns) = derived_images c ns \<and>
   name ` set (derived_images c ns) =
     {n \<in> set ns. \<not> (\<exists>r \<in> set (explicit_images c). name r = n \<or> name r = fst (split_ref n))}"
proof (intro conjI)
  show "take (length (explicit_images c)) (finalizeImageRenames c ns) = explicit_images c"
    by (simp add: finalizeImageRenames_def)
  show "drop (length (explicit_images c)) (finalizeImageRenames c ns) = derived_images c ns"
    by (simp add: finalizeImageRenames_def)
  have "name ` set (derived_images c ns) = {n \<in> set ns. \<not> kustomized c n}"
    unfolding derived_images_def names_rename_loop by simp
  then show "name ` set (derived_images c ns) =
     {n \<in> set ns. \<not> (\<exists>r \<in> set (explicit_images c). name r = n \<or> name r = fst (split_ref n))}"
    by (simp add: kustomized_iff)
qed

text \<open>
  The specification's third scenario, with two more declared references: the explicit rule
  for \<open>myservice\<close> suppresses both \<open>myservice\<close> and \<open>myservice:v1\<close>.
\<close>

theorem explicit_rules_first_witness:
  "finalizeImageRenames
     \<lparr>ctx_name = ''c1'', registry = None, imageTag = None,
      images = Some [\<lparr>name = ''myservice'', newName = Some ''other/myservice'', newTag = None\<rparr>]\<rparr>
     [''myservice'', ''myservice:v1'', ''db''] =
   [\<lparr>name = ''myservice'', newName = Some ''other/myservice'', newTag = None\<rparr>,
    \<lparr>name = ''db'', newName = None, newTag = None\<rparr>] \<and>
   fst (split_ref ''myservice:v1'') = ''myservice'' \<and>
   name ` set (derived_images
     \<lparr>ctx_name = ''c1'', registry = None, imageTag = None,
      images = Some [\<lparr>name = ''myservice'', newName = Some ''other/myservice'', newTag = None\<rparr>]\<rparr>
     [''myservice'', ''myservice:v1'', ''db'']) = {''db''}"
proof -
  let ?c = "\<lparr>ctx_name = ''c1'', registry = None, imageTag = None,
      images = Some [\<lparr>name = ''myservice'', newName = Some ''other/myservice'', newTag = None\<rparr>]\<rparr>"
  have f: "finalizeImageRenames ?c [''myservice'', ''myservice:v1'', ''db''] =
   [\<lparr>name = ''myservice'', newName = Some ''other/myservice'', newTag = None\<rparr>,
    \<lparr>name = ''db'', newName = None, newTag = None\<rparr>]"
    by code_simp
  have e: "explicit_images ?c =
      [\<lparr>name = ''myservice'', newName = Some ''other/myservice'', newTag = None\<rparr>]"
    by (simp add: explicit_images_def)
  have s: "split_ref ''myservice'' = (''myservice'', None)"
    "split_ref ''myservice:v1'' = (''myservice'', Some ''v1'')"
    "split_ref ''db'' = (''db'', None)"
    by code_simp+
  have "{n \<in> set [''myservice'', ''myservice:v1'', ''db''].
      \<not> (\<exists>r \<in> set [\<lparr>name = ''myservice'', newName = Some ''other/myservice'', newTag = None\<rparr>].
            name r = n \<or> name r = fst (split_ref n))} = {''db''}"
    using s by auto
  with explicit_rules_first [of ?c "[''myservice'', ''myservice:v1'', ''db'']"]
  have "name ` set (derived_images ?c [''myservice'', ''myservice:v1'', ''db'']) = {''db''}"
    unfolding e by simp
  with f s(2) show ?thesis by simp
qed

text \<open>
  Claim C4. No two derived rules have the same name, and every declared reference that is
  not overridden has exactly one derived rule under its literal text, whatever its parsed
  first part is.
\<close>

theorem derived_names_distinct:
  "distinct (map name (derived_images c ns)) \<and>
   (\<forall>n \<in> set ns. \<not> kustomized c n \<longrightarrow>
      length (filter (\<lambda>r. name r = n) (derived_images c ns)) = 1)"
proof -
  have d: "distinct (map name (derived_images c ns))"
    by (simp add: derived_images_def distinct_rename_loop)
  have "length (filter (\<lambda>r. name r = n) (derived_images c ns)) = 1"
    if "n \<in> set ns" "\<not> kustomized c n" for n
  proof -
    from that have "n \<in> name ` set (derived_images c ns)"
      unfolding derived_images_def names_rename_loop by simp
    with d show ?thesis by (rule filter_unique_length)
  qed
  with d show ?thesis by blast
qed

text \<open>
  The specification's fourth scenario: \<open>a\<close> and \<open>a:latest\<close> share the first part
  \<open>a\<close> and each get a rule; the repeated \<open>a\<close> adds none.
\<close>

theorem derived_names_distinct_witness:
  "derived_images \<lparr>ctx_name = ''dev'', registry = None, imageTag = None, images = None\<rparr>
     [''a'', ''a:latest'', ''a''] =
   [\<lparr>name = ''a:latest'', newName = None, newTag = None\<rparr>,
    \<lparr>name = ''a'', newName = None, newTag = None\<rparr>] \<and>
   ''a:latest'' \<in> set [''a'', ''a:latest'', ''a''] \<and>
   \<not> kustomized \<lparr>ctx_name = ''dev'', registry = None, imageTag = None, images = None\<rparr>
     ''a:latest'' \<and>
   distinct (map name (derived_images
     \<lparr>ctx_name = ''dev'', registry = None, imageTag = None, images = None\<rparr>
     [''a'', ''a:latest'', ''a''])) \<and>
   length (filter (\<lambda>r. name r = ''a:latest'') (derived_images
     \<lparr>ctx_name = ''dev'', registry = None, imageTag = None, images = None\<rparr>
     [''a'', ''a:latest'', ''a''])) = 1"
proof -
  let ?c = "\<lparr>ctx_name = ''dev'', registry = None, imageTag = None, images = None\<rparr>"
  have "derived_images ?c [''a'', ''a:latest'', ''a''] =
   [\<lparr>name = ''a:latest'', newName = None, newTag = None\<rparr>,
    \<lparr>name = ''a'', newName = None, newTag = None\<rparr>]"
    by code_simp
  moreover have "\<not> kustomized ?c ''a:latest''"
    by (simp add: kustomized_def)
  ultimately show ?thesis
    using derived_names_distinct [of ?c "[''a'', ''a:latest'', ''a'']"] by simp
qed

text \<open>
  Claim C2, amended. The reference is split at the first colon at or after its first path
  separator, or at its first colon when it has no path separator; there is no tag when no
  such colon exists.
\<close>

theorem split_ref_first_colon:
  "split_ref n =
     (let rest = drop (length (before_first_slash n)) n
      in if CHR '':'' \<in> set rest
         then (before_first_slash n @ takeWhile (\<lambda>c. c \<noteq> CHR '':'') rest,
               Some (tl (dropWhile (\<lambda>c. c \<noteq> CHR '':'') rest)))
         else (n, None))"
proof (cases "CHR '':'' \<in> set (drop (length (before_first_slash n)) n)")
  case True
  then have "tag_pos n \<noteq> - 1"
    by (simp add: tag_pos_eq)
  with True show ?thesis
    using split_ref_eq [of n] by (simp add: Let_def)
next
  case False
  then have "tag_pos n = - 1"
    by (simp add: tag_pos_eq)
  then have "split_ref n = (n, None)"
    by (simp add: split_ref_def)
  with False show ?thesis
    by (simp add: Let_def)
qed

text \<open>
  A registry with a port: the colon before the first path separator is not a tag colon.
\<close>

theorem split_ref_first_colon_witness:
  "split_ref ''localhost:5000/ns/img:tag'' = (''localhost:5000/ns/img'', Some ''tag'') \<and>
   split_ref ''localhost:5000/img'' = (''localhost:5000/img'', None)"
  using split_ref_first_colon [of "''localhost:5000/ns/img:tag''"]
    split_ref_first_colon [of "''localhost:5000/img''"]
  by (simp add: before_first_slash_def)

text \<open>
  Claim C2 as stated fails on a reference with a tag and a digest: the code splits at the
  first colon, the rule "last colon after the last path separator" at the last one.
\<close>

theorem split_ref_last_colon_counterexample:
  "split_ref ''app:v1@sha256:0a'' = (''app'', Some ''v1@sha256:0a'') \<and>
   spec_split_ref ''app:v1@sha256:0a'' = (''app:v1@sha256'', Some ''0a'')"
  by code_simp

lemma dropWhile_neq_Cons: "x \<in> set xs \<Longrightarrow> \<exists>ys. dropWhile (\<lambda>c. c \<noteq> x) xs = x # ys"
  by (induction xs) auto

text \<open>
  The two rules agree on the references the specification has in mind: those with at most
  one colon from the first path separator on, and no path separator behind that colon.
\<close>

lemma split_ref_agrees_with_spec:
  assumes one: "length (filter (\<lambda>c. c = CHR '':'') (drop (length (before_first_slash n)) n)) \<le> 1"
    and no_slash: "CHR ''/'' \<notin> set (tl (dropWhile (\<lambda>c. c \<noteq> CHR '':'')
        (drop (length (before_first_slash n)) n)))"
  shows "split_ref n = spec_split_ref n"
proof -
  define h where "h = before_first_slash n"
  define rest where "rest = drop (length h) n"
  have n_eq: "n = h @ rest"
    by (simp add: h_def rest_def before_first_slash_append)
  have rest_slash: "CHR ''/'' \<in> set n \<Longrightarrow> \<exists>ys. rest = CHR ''/'' # ys"
  proof -
    assume a: "CHR ''/'' \<in> set n"
    then have r: "rest = dropWhile (\<lambda>c. c \<noteq> CHR ''/'') n"
      by (simp add: rest_def h_def before_first_slash_def dropWhile_eq_drop [symmetric])
    with dropWhile_neq_Cons [OF a] show ?thesis by simp
  qed
  have h_empty: "CHR ''/'' \<notin> set n \<Longrightarrow> h = []"
    by (simp add: h_def before_first_slash_def)
  show ?thesis
  proof (cases "CHR '':'' \<in> set rest")
    case False
    have "CHR '':'' \<notin> set (takeWhile (\<lambda>c. c \<noteq> CHR ''/'') (rev n))"
    proof (cases "CHR ''/'' \<in> set n")
      case True
      then obtain ys where ys: "rest = CHR ''/'' # ys" using rest_slash by blast
      have "takeWhile (\<lambda>c. c \<noteq> CHR ''/'') (rev n) = takeWhile (\<lambda>c. c \<noteq> CHR ''/'') (rev ys)"
        by (simp add: n_eq ys takeWhile_tail)
      moreover have "CHR '':'' \<notin> set ys" using False by (simp add: ys)
      ultimately show ?thesis by (auto dest: set_takeWhileD)
    next
      case no: False
      with h_empty False show ?thesis by (auto simp: n_eq dest: set_takeWhileD)
    qed
    with False show ?thesis
      by (simp add: split_ref_eq spec_split_ref_def Let_def rest_def h_def)
  next
    case True
    define t where "t = takeWhile (\<lambda>c. c \<noteq> CHR '':'') rest"
    define u where "u = tl (dropWhile (\<lambda>c. c \<noteq> CHR '':'') rest)"
    have dw: "dropWhile (\<lambda>c. c \<noteq> CHR '':'') rest = CHR '':'' # u"
      using dropWhile_neq_Cons [OF True] by (auto simp: u_def)
    have rest_eq: "rest = t @ CHR '':'' # u"
      using takeWhile_dropWhile_id [of "\<lambda>c. c \<noteq> CHR '':''" rest] by (simp add: t_def dw)
    have t_no: "CHR '':'' \<notin> set t"
      by (auto simp: t_def dest: set_takeWhileD)
    have u_colon: "CHR '':'' \<notin> set u"
    proof
      assume "CHR '':'' \<in> set u"
      then have "filter (\<lambda>c. c = CHR '':'') u \<noteq> []"
        by (simp add: filter_empty_conv)
      then have "1 \<le> length (filter (\<lambda>c. c = CHR '':'') u)"
        by (cases "filter (\<lambda>c. c = CHR '':'') u") simp_all
      with one show False
        by (simp add: rest_def [symmetric] h_def [symmetric] rest_eq)
    qed
    have u_slash: "CHR ''/'' \<notin> set u"
      using no_slash by (simp add: u_def rest_def h_def)
    have rev_n: "rev n = rev u @ CHR '':'' # (rev t @ rev h)"
      by (simp add: n_eq rest_eq)
    have tw_slash: "CHR '':'' \<in> set (takeWhile (\<lambda>c. c \<noteq> CHR ''/'') (rev n))"
    proof -
      have "takeWhile (\<lambda>c. c \<noteq> CHR ''/'') (rev n) =
          rev u @ takeWhile (\<lambda>c. c \<noteq> CHR ''/'') (CHR '':'' # (rev t @ rev h))"
        unfolding rev_n using u_slash by (intro takeWhile_append2) auto
      then show ?thesis by simp
    qed
    have u_all: "\<forall>x \<in> set (rev u). x \<noteq> CHR '':''"
      using u_colon by auto
    have dw_colon: "dropWhile (\<lambda>c. c \<noteq> CHR '':'') (rev n) = CHR '':'' # (rev t @ rev h)"
      unfolding rev_n using u_all by (simp add: dropWhile_append)
    have tw_colon: "takeWhile (\<lambda>c. c \<noteq> CHR '':'') (rev n) = rev u"
      unfolding rev_n using u_all by (simp add: takeWhile_append)
    have "spec_split_ref n = (h @ t, Some u)"
      unfolding spec_split_ref_def Let_def using tw_slash by (simp add: dw_colon tw_colon)
    moreover have "split_ref n = (h @ t, Some u)"
      using True by (simp add: split_ref_eq Let_def rest_def [symmetric] h_def [symmetric] t_def u_def)
    ultimately show ?thesis by simp
  qed
qed

lemma tag_order_rename_step:
  "sorted_wrt (\<lambda>a b. truthy (snd (split_ref (name b))) \<longrightarrow> truthy (snd (split_ref (name a)))) d \<Longrightarrow>
   sorted_wrt (\<lambda>a b. truthy (snd (split_ref (name b))) \<longrightarrow> truthy (snd (split_ref (name a))))
     (rename_step c n d)"
  by (auto simp: rename_step_def sorted_wrt_append name_candidate)

lemma tag_order_rename_loop:
  "sorted_wrt (\<lambda>a b. truthy (snd (split_ref (name b))) \<longrightarrow> truthy (snd (split_ref (name a)))) d \<Longrightarrow>
   sorted_wrt (\<lambda>a b. truthy (snd (split_ref (name b))) \<longrightarrow> truthy (snd (split_ref (name a))))
     (rename_loop c ns d)"
  by (induction ns arbitrary: d) (auto simp: tag_order_rename_step)

lemma fields_rename_step:
  assumes "\<forall>r \<in> set d. newName r = newName (candidate c (name r)) \<and>
      newTag r = (if truthy (snd (split_ref (name r))) then None
                  else if truthy (imageTag c) then imageTag c else None)"
  shows "\<forall>r \<in> set (rename_step c n d). newName r = newName (candidate c (name r)) \<and>
      newTag r = (if truthy (snd (split_ref (name r))) then None
                  else if truthy (imageTag c) then imageTag c else None)"
  using assms by (auto simp: rename_step_def name_candidate newTag_candidate)

lemma fields_rename_loop:
  assumes "\<forall>r \<in> set d. newName r = newName (candidate c (name r)) \<and>
      newTag r = (if truthy (snd (split_ref (name r))) then None
                  else if truthy (imageTag c) then imageTag c else None)"
  shows "\<forall>r \<in> set (rename_loop c ns d). newName r = newName (candidate c (name r)) \<and>
      newTag r = (if truthy (snd (split_ref (name r))) then None
                  else if truthy (imageTag c) then imageTag c else None)"
  using assms
proof (induction ns arbitrary: d)
  case Nil
  then show ?case by simp
next
  case (Cons n ns)
  from fields_rename_step [OF Cons.prems] show ?case
    unfolding rename_loop.simps by (rule Cons.IH)
qed

lemma fields_derived_images:
  "r \<in> set (derived_images c ns) \<Longrightarrow>
     newName r = newName (candidate c (name r)) \<and>
     newTag r = (if truthy (snd (split_ref (name r))) then None
                 else if truthy (imageTag c) then imageTag c else None)"
  using fields_rename_loop [of "[]" c ns] by (simp add: derived_images_def)

lemma tag_order_nth:
  assumes "sorted_wrt (\<lambda>a b. P b \<longrightarrow> P a) xs" "i < length xs" "j < length xs"
    "P (xs ! i)" "\<not> P (xs ! j)"
  shows "i < j"
proof (rule ccontr)
  assume "\<not> i < j"
  with assms(4,5) have "j < i" by (cases "i = j") auto
  with assms(1,2) have "P (xs ! i) \<longrightarrow> P (xs ! j)"
    by (simp add: sorted_wrt_iff_nth_less)
  with assms(4,5) show False by simp
qed

text \<open>
  Claim C3, amended. For a reference that is neither overridden nor already encountered:
  when its tag is a non-empty string, the loop body puts its rule in front of the derived
  list, without \<open>newTag\<close>; otherwise it puts the rule at the end, with \<open>newTag\<close> the
  context's \<open>imageTag\<close> when that is a non-empty string and without \<open>newTag\<close> when it
  is not. Every derived rule of the result has its \<open>newTag\<close> accordingly, and in the
  final list every derived rule of a reference with a non-empty tag stands before every
  derived rule of a reference without one.
\<close>

theorem tagged_rules_first:
  "(\<not> kustomized c n \<and> \<not> encountered d n \<and> truthy (snd (split_ref n)) \<longrightarrow>
      (\<exists>k. rename_step c n d = k # d \<and> name k = n \<and> newTag k = None)) \<and>
   (\<not> kustomized c n \<and> \<not> encountered d n \<and> \<not> truthy (snd (split_ref n)) \<longrightarrow>
      (\<exists>k. rename_step c n d = d @ [k] \<and> name k = n \<and>
           newTag k = (if truthy (imageTag c) then imageTag c else None))) \<and>
   (\<forall>r \<in> set (derived_images c ns).
      newTag r = (if truthy (snd (split_ref (name r))) then None
                  else if truthy (imageTag c) then imageTag c else None)) \<and>
   (\<forall>i j. length (explicit_images c) \<le> i \<and> i < length (finalizeImageRenames c ns) \<and>
          length (explicit_images c) \<le> j \<and> j < length (finalizeImageRenames c ns) \<and>
          truthy (snd (split_ref (name (finalizeImageRenames c ns ! i)))) \<and>
          \<not> truthy (snd (split_ref (name (finalizeImageRenames c ns ! j)))) \<longrightarrow> i < j)"
proof (intro conjI allI impI ballI)
  assume "\<not> kustomized c n \<and> \<not> encountered d n \<and> truthy (snd (split_ref n))"
  then show "\<exists>k. rename_step c n d = k # d \<and> name k = n \<and> newTag k = None"
    by (simp add: rename_step_def name_candidate newTag_candidate)
next
  assume "\<not> kustomized c n \<and> \<not> encountered d n \<and> \<not> truthy (snd (split_ref n))"
  then show "\<exists>k. rename_step c n d = d @ [k] \<and> name k = n \<and>
      newTag k = (if truthy (imageTag c) then imageTag c else None)"
    by (simp add: rename_step_def name_candidate)
next
  fix r assume "r \<in> set (derived_images c ns)"
  then show "newTag r = (if truthy (snd (split_ref (name r))) then None
                  else if truthy (imageTag c) then imageTag c else None)"
    by (simp add: fields_derived_images)
next
  fix i j
  let ?e = "explicit_images c" and ?d = "derived_images c ns"
  assume a: "length ?e \<le> i \<and> i < length (finalizeImageRenames c ns) \<and>
          length ?e \<le> j \<and> j < length (finalizeImageRenames c ns) \<and>
          truthy (snd (split_ref (name (finalizeImageRenames c ns ! i)))) \<and>
          \<not> truthy (snd (split_ref (name (finalizeImageRenames c ns ! j))))"
  have s: "sorted_wrt (\<lambda>a b. truthy (snd (split_ref (name b))) \<longrightarrow>
      truthy (snd (split_ref (name a)))) ?d"
    unfolding derived_images_def by (rule tag_order_rename_loop) simp
  from a have i: "i - length ?e < length ?d" and j: "j - length ?e < length ?d"
    by (auto simp: finalizeImageRenames_def)
  from a have "truthy (snd (split_ref (name (?d ! (i - length ?e)))))"
    and "\<not> truthy (snd (split_ref (name (?d ! (j - length ?e)))))"
    by (auto simp: finalizeImageRenames_def nth_append)
  with tag_order_nth [of "\<lambda>r. truthy (snd (split_ref (name r)))" ?d "i - length ?e" "j - length ?e"] s i j
  have "i - length ?e < j - length ?e" by blast
  then show "i < j" by simp
qed

text \<open>
  Claim C3 as stated fails where a string is empty. The reference \<open>b:\<close> has a tag, the
  empty string, and its rule is appended and receives the context's \<open>imageTag\<close>; a
  context that declares \<open>imageTag\<close> as the empty string gives no \<open>newTag\<close> to an
  untagged reference.
\<close>

theorem tagged_rules_first_counterexample:
  "snd (split_ref ''b:'') = Some [] \<and>
   derived_images \<lparr>ctx_name = ''prod'', registry = None, imageTag = Some ''v2'', images = None\<rparr>
     [''a'', ''b:''] =
     [\<lparr>name = ''a'', newName = None, newTag = Some ''v2''\<rparr>,
      \<lparr>name = ''b:'', newName = None, newTag = Some ''v2''\<rparr>] \<and>
   derived_images \<lparr>ctx_name = ''prod'', registry = None, imageTag = Some [], images = None\<rparr>
     [''a''] =
     [\<lparr>name = ''a'', newName = None, newTag = None\<rparr>]"
  by code_simp

text \<open>
  The specification's second scenario, after an untagged reference: the rule of
  \<open>myservice:v1\<close> goes in front and has no \<open>newTag\<close>.
\<close>

theorem tagged_rules_first_witness:
  "finalizeImageRenames
     \<lparr>ctx_name = ''prod'', registry = None, imageTag = Some ''v2'', images = None\<rparr>
     [''web'', ''myservice:v1''] =
     [\<lparr>name = ''myservice:v1'', newName = None, newTag = None\<rparr>,
      \<lparr>name = ''web'', newName = None, newTag = Some ''v2''\<rparr>] \<and>
   \<not> kustomized
      \<lparr>ctx_name = ''prod'', registry = None, imageTag = Some ''v2'', images = None\<rparr>
      ''myservice:v1'' \<and>
   \<not> encountered [\<lparr>name = ''web'', newName = None, newTag = Some ''v2''\<rparr>] ''myservice:v1'' \<and>
   truthy (snd (split_ref ''myservice:v1'')) \<and>
   (\<exists>k. rename_step
      \<lparr>ctx_name = ''prod'', registry = None, imageTag = Some ''v2'', images = None\<rparr>
      ''myservice:v1'' [\<lparr>name = ''web'', newName = None, newTag = Some ''v2''\<rparr>] =
      k # [\<lparr>name = ''web'', newName = None, newTag = Some ''v2''\<rparr>] \<and>
      name k = ''myservice:v1'' \<and> newTag k = None) \<and>
   \<not> kustomized
      \<lparr>ctx_name = ''prod'', registry = None, imageTag = Some ''v2'', images = None\<rparr>
      ''web'' \<and>
   \<not> encountered [] ''web'' \<and>
   \<not> truthy (snd (split_ref ''web'')) \<and>
   (\<exists>k. rename_step
      \<lparr>ctx_name = ''prod'', registry = None, imageTag = Some ''v2'', images = None\<rparr>
      ''web'' [] = [] @ [k] \<and> name k = ''web'' \<and> newTag k = Some ''v2'')"
proof -
  let ?c = "\<lparr>ctx_name = ''prod'', registry = None, imageTag = Some ''v2'', images = None\<rparr>"
  let ?w = "\<lparr>name = ''web'', newName = None, newTag = Some ''v2''\<rparr>"
  have k: "\<not> kustomized ?c n" for n by (simp add: kustomized_def)
  have e1: "\<not> encountered [?w] ''myservice:v1''" and e2: "\<not> encountered [] ''web''"
    by (simp_all add: encountered_def)
  have t1: "truthy (snd (split_ref ''myservice:v1''))" and t2: "\<not> truthy (snd (split_ref ''web''))"
    by code_simp+
  have i: "truthy (imageTag ?c)" by (simp add: truthy_def)
  have f: "finalizeImageRenames ?c [''web'', ''myservice:v1''] =
     [\<lparr>name = ''myservice:v1'', newName = None, newTag = None\<rparr>, ?w]"
    by code_simp
  have first: "\<exists>k. rename_step ?c ''myservice:v1'' [?w] = k # [?w] \<and>
      name k = ''myservice:v1'' \<and> newTag k = None"
    using tagged_rules_first [of ?c "''myservice:v1''" "[?w]" "[]"] k e1 t1 by blast
  have second: "\<exists>k. rename_step ?c ''web'' [] = [] @ [k] \<and> name k = ''web'' \<and>
      newTag k = Some ''v2''"
    using tagged_rules_first [of ?c "''web''" "[]" "[]"] k e2 t2 i by simp
  from f k e1 e2 t1 t2 first second show ?thesis by blast
qed

lemma newName_candidate_registry:
  "registry c = Some reg \<Longrightarrow> reg \<noteq> [] \<Longrightarrow>
     newName (candidate c n) =
       (if CHR ''/'' \<in> set (fst (split_ref n)) then None
        else Some (reg @ ''/'' @ fst (split_ref n)))"
  by (simp add: candidate_def truthy_def includes_char_def slash_fst_split_ref)

text \<open>
  Claim C5, amended. In a context whose registry is a non-empty string, a derived rule has
  \<open>newName\<close> the registry, a path separator and the first part of the reference exactly
  when that first part has no path separator, and no \<open>newName\<close> otherwise. The
  specification's first scenario is the instance \<open>myservice\<close>.
\<close>

theorem registry_newName:
  "(registry c = Some reg \<and> reg \<noteq> [] \<and> r \<in> set (derived_images c ns) \<longrightarrow>
      newName r = (if CHR ''/'' \<in> set (fst (split_ref (name r))) then None
                   else Some (reg @ ''/'' @ fst (split_ref (name r))))) \<and>
   derived_images
     \<lparr>ctx_name = ''dev'', registry = Some ''reg.example.com'', imageTag = None, images = None\<rparr>
     [''myservice''] =
     [\<lparr>name = ''myservice'', newName = Some ''reg.example.com/myservice'', newTag = None\<rparr>]"
proof (intro conjI impI)
  assume "registry c = Some reg \<and> reg \<noteq> [] \<and> r \<in> set (derived_images c ns)"
  then show "newName r = (if CHR ''/'' \<in> set (fst (split_ref (name r))) then None
                   else Some (reg @ ''/'' @ fst (split_ref (name r))))"
    using fields_derived_images [of r c ns] newName_candidate_registry [of c reg "name r"]
    by simp
next
  show "derived_images
     \<lparr>ctx_name = ''dev'', registry = Some ''reg.example.com'', imageTag = None, images = None\<rparr>
     [''myservice''] =
     [\<lparr>name = ''myservice'', newName = Some ''reg.example.com/myservice'', newTag = None\<rparr>]"
    by code_simp
qed

text \<open>
  Claim C5 as stated fails for a context that declares its registry as the empty string:
  the test \<^verbatim>\<open>context.registry &&\<close> is false and no rule gets a \<open>newName\<close>.
\<close>

theorem registry_newName_counterexample:
  "derived_images \<lparr>ctx_name = ''dev'', registry = Some [], imageTag = None, images = None\<rparr>
     [''myservice''] =
     [\<lparr>name = ''myservice'', newName = None, newTag = None\<rparr>]"
  by code_simp

text \<open>
  The registry of the README's example configuration.
\<close>

theorem registry_newName_witness:
  "registry
     \<lparr>ctx_name = ''dev'', registry = Some ''us.icr.io/tardieu'', imageTag = None, images = None\<rparr> =
     Some ''us.icr.io/tardieu'' \<and>
   ''us.icr.io/tardieu'' \<noteq> [] \<and>
   \<lparr>name = ''redis:5'', newName = Some ''us.icr.io/tardieu/redis'', newTag = None\<rparr>
     \<in> set (derived_images
       \<lparr>ctx_name = ''dev'', registry = Some ''us.icr.io/tardieu'', imageTag = None, images = None\<rparr>
       [''solsa-echo'', ''ibmcom/kn-helloworld'', ''redis:5'']) \<and>
   fst (split_ref ''redis:5'') = ''redis'' \<and>
   derived_images
     \<lparr>ctx_name = ''dev'', registry = Some ''us.icr.io/tardieu'', imageTag = None, images = None\<rparr>
     [''solsa-echo'', ''ibmcom/kn-helloworld'', ''redis:5''] =
     [\<lparr>name = ''redis:5'', newName = Some ''us.icr.io/tardieu/redis'', newTag = None\<rparr>,
      \<lparr>name = ''solsa-echo'', newName = Some ''us.icr.io/tardieu/solsa-echo'', newTag = None\<rparr>,
      \<lparr>name = ''ibmcom/kn-helloworld'', newName = None, newTag = None\<rparr>]"
proof -
  let ?c = "\<lparr>ctx_name = ''dev'', registry = Some ''us.icr.io/tardieu'', imageTag = None, images = None\<rparr>"
  let ?ns = "[''solsa-echo'', ''ibmcom/kn-helloworld'', ''redis:5'']"
  have d: "derived_images ?c ?ns =
     [\<lparr>name = ''redis:5'', newName = Some ''us.icr.io/tardieu/redis'', newTag = None\<rparr>,
      \<lparr>name = ''solsa-echo'', newName = Some ''us.icr.io/tardieu/solsa-echo'', newTag = None\<rparr>,
      \<lparr>name = ''ibmcom/kn-helloworld'', newName = None, newTag = None\<rparr>]"
    by code_simp
  have s: "split_ref ''redis:5'' = (''redis'', Some ''5'')"
    by code_simp
  show ?thesis
    using registry_newName [of ?c "''us.icr.io/tardieu''"
        "\<lparr>name = ''redis:5'', newName = Some ''us.icr.io/tardieu/redis'', newTag = None\<rparr>" ?ns] d s
    by simp
qed

subsection \<open>The function on the store\<close>

lemma rule_at_append_new: "rule_at (h @ [HRule r]) (length h) = Some r"
  by (simp add: rule_at_def)

lemma set_newName_new: "set_newName (length h) v (h @ [HRule r]) = h @ [HRule (r\<lparr>newName := v\<rparr>)]"
  by (simp add: set_newName_def rule_at_append_new)

lemma set_newTag_new: "set_newTag (length h) v (h @ [HRule r]) = h @ [HRule (r\<lparr>newTag := v\<rparr>)]"
  by (simp add: set_newTag_def rule_at_append_new)

lemma array_at_append: "a < length h \<Longrightarrow> array_at (h @ xs) a = array_at h a"
  by (simp add: array_at_def nth_append)

lemma rule_at_append: "a < length h \<Longrightarrow> rule_at (h @ xs) a = rule_at h a"
  by (simp add: rule_at_def nth_append)

lemma rule_at_Some_less: "rule_at h a = Some r \<Longrightarrow> a < length h"
  by (simp add: rule_at_def split: if_splits)

lemma rule_at_array: "is_array h a \<Longrightarrow> rule_at h a = None"
  by (auto simp: is_array_def rule_at_def split: heap_obj.splits)

lemma rule_at_update_array:
  "is_array h imgs \<Longrightarrow> rule_at (h[imgs := HArray ds]) a = rule_at h a"
  by (cases "a = imgs") (auto simp: rule_at_def is_array_def split: heap_obj.splits)

lemma array_at_update_same: "a < length h \<Longrightarrow> array_at (h[a := HArray ds]) a = ds"
  by (simp add: array_at_def)

lemma array_at_update_other: "a \<noteq> b \<Longrightarrow> array_at (h[b := x]) a = array_at h a"
  by (simp add: array_at_def)

lemma is_array_update: "is_array h a \<Longrightarrow> is_array (h[a := HArray ds]) a"
  by (simp add: is_array_def)

lemma is_array_append: "is_array h a \<Longrightarrow> is_array (h @ xs) a"
  by (simp add: is_array_def nth_append)

lemma candidate_context_at:
  "candidate (context_at h c) n =
     \<lparr>name = n,
      newName = (if truthy (ref_registry c) \<and> \<not> includes_char n (CHR ''/'')
                 then Some (the (ref_registry c) @ ''/'' @ fst (split_ref n)) else None),
      newTag = None\<rparr>"
  by (simp add: candidate_def context_at_def)

lemma ref_imageTag_context_at: "imageTag (context_at h c) = ref_imageTag c"
  by (simp add: context_at_def)

lemma h_rename_step_nf:
  assumes "is_array h imgs"
  shows "h_rename_step c n imgs h =
     (if h_kustomized h c n \<or> h_encountered h imgs n then h
      else if truthy (snd (split_ref n))
      then (h @ [HRule (candidate (context_at h0 c) n)])[imgs := HArray (length h # array_at h imgs)]
      else (h @ [HRule ((candidate (context_at h0 c) n)\<lparr>newTag :=
              (if truthy (ref_imageTag c) then ref_imageTag c else None)\<rparr>)])
             [imgs := HArray (array_at h imgs @ [length h])])"
proof -
  from assms have less: "imgs < length h" by (simp add: is_array_def)
  have upd: "(xs @ [y])[imgs := z] = xs[imgs := z] @ [y]" if "length xs = length h" for xs y z
    using that less by (simp add: list_update_append)
  show ?thesis
    unfolding h_rename_step_def Let_def candidate_context_at
    using less
    by (simp add: set_newName_new set_newTag_new array_at_append)
qed

lemma exists_name_is:
  "map (rule_at h) es = map Some d \<Longrightarrow>
     (\<exists>e \<in> set es. name_is h P e) \<longleftrightarrow> (\<exists>r \<in> set d. P (name r))"
proof (induction es arbitrary: d)
  case Nil
  then show ?case by simp
next
  case (Cons e es)
  then obtain r rs where d: "d = r # rs" and r: "rule_at h e = Some r"
    and rs: "map (rule_at h) es = map Some rs"
    by (cases d) auto
  from Cons.IH [OF rs] show ?case
    by (simp add: d name_is_def r)
qed

lemma find_name_is:
  "map (rule_at h) es = map Some d \<Longrightarrow>
     (find (name_is h P) es \<noteq> None) = (find (\<lambda>r. P (name r)) d \<noteq> None)"
  using exists_name_is [of h es d P] by (simp add: find_None_iff) blast

lemma frame_length:
  assumes "take (length h0) h = h0"
  shows "length h0 \<le> length h"
proof -
  have "length (take (length h0) h) = length h0"
    by (simp only: assms)
  then show ?thesis by simp
qed

lemma map_Some_mem:
  "map f xs = map Some d \<Longrightarrow> a \<in> set xs \<Longrightarrow> \<exists>r. f a = Some r"
  by (induction xs arbitrary: d) auto

lemma frame_nth: "take (length h0) h = h0 \<Longrightarrow> a < length h0 \<Longrightarrow> h ! a = h0 ! a"
  by (metis nth_take)

lemma rule_at_frame: "take (length h0) h = h0 \<Longrightarrow> a < length h0 \<Longrightarrow> rule_at h a = rule_at h0 a"
  using frame_length [of h0 h] frame_nth [of h0 h a] by (simp add: rule_at_def)

lemma array_at_frame: "take (length h0) h = h0 \<Longrightarrow> a < length h0 \<Longrightarrow> array_at h a = array_at h0 a"
  using frame_length [of h0 h] frame_nth [of h0 h a] by (simp add: array_at_def)

lemma is_array_frame: "take (length h0) h = h0 \<Longrightarrow> is_array h0 a \<Longrightarrow> is_array h a"
  using frame_length [of h0 h] frame_nth [of h0 h a] by (simp add: is_array_def)

lemma explicit_frame:
  assumes "wf_context h0 c" "take (length h0) h = h0" "ref_images c = Some a"
  shows "array_at h a = array_at h0 a"
    and "map (rule_at h) (array_at h0 a) = map Some (rules_at h0 a)"
proof -
  from assms(1,3) have arr: "is_array h0 a"
    and rules: "\<forall>e \<in> set (array_at h0 a). rule_at h0 e \<noteq> None"
    by (simp_all add: wf_context_def list_all_iff)
  from arr have "a < length h0" by (simp add: is_array_def)
  with assms(2) show "array_at h a = array_at h0 a" by (rule array_at_frame)
  have "rule_at h e = Some (the (rule_at h0 e))" if "e \<in> set (array_at h0 a)" for e
  proof -
    from that rules obtain r where r: "rule_at h0 e = Some r" by auto
    then have "e < length h0" by (rule rule_at_Some_less)
    with assms(2) r show ?thesis by (simp add: rule_at_frame)
  qed
  then show "map (rule_at h) (array_at h0 a) = map Some (rules_at h0 a)"
    by (simp add: rules_at_def)
qed

lemma h_kustomized_refines:
  assumes "wf_context h0 c" "take (length h0) h = h0"
  shows "h_kustomized h c n = kustomized (context_at h0 c) n"
proof (cases "ref_images c")
  case None
  then show ?thesis by (simp add: h_kustomized_def kustomized_def context_at_def)
next
  case (Some a)
  from explicit_frame [OF assms Some] find_name_is [of h "array_at h0 a" "rules_at h0 a"]
  show ?thesis
    by (simp add: h_kustomized_def kustomized_def context_at_def Some)
qed

lemma h_encountered_refines:
  "map (rule_at h) (array_at h imgs) = map Some d \<Longrightarrow>
     h_encountered h imgs n = encountered d n"
  using find_name_is [of h "array_at h imgs" d "\<lambda>m. m = n"]
  by (simp add: h_encountered_def encountered_def)

lemma h_rename_step_refines:
  assumes wf: "wf_context h0 c" and fr: "take (length h0) h = h0"
    and imgs: "length h0 \<le> imgs" "is_array h imgs"
    and rel: "map (rule_at h) (array_at h imgs) = map Some d"
  shows "take (length h0) (h_rename_step c n imgs h) = h0 \<and>
         is_array (h_rename_step c n imgs h) imgs \<and>
         length h \<le> length (h_rename_step c n imgs h) \<and>
         map (rule_at (h_rename_step c n imgs h)) (array_at (h_rename_step c n imgs h) imgs) =
           map Some (rename_step (context_at h0 c) n d)"
proof -
  let ?C = "context_at h0 c"
  from imgs have less: "imgs < length h" by (simp add: is_array_def)
  have k: "h_kustomized h c n = kustomized ?C n"
    using wf fr by (rule h_kustomized_refines)
  have e: "h_encountered h imgs n = encountered d n"
    using rel by (rule h_encountered_refines)
  have old: "map (rule_at ((h @ [x])[imgs := HArray ds])) (array_at h imgs) = map Some d" for x ds
  proof -
    have "rule_at ((h @ [x])[imgs := HArray ds]) a = rule_at h a" if "a \<in> set (array_at h imgs)" for a
    proof -
      from that rel obtain r where "rule_at h a = Some r"
        using map_Some_mem [of "rule_at h" "array_at h imgs" d a] by blast
      then have "a < length h" by (rule rule_at_Some_less)
      then show ?thesis
        using imgs(2) by (simp add: rule_at_update_array is_array_append rule_at_append)
    qed
    then have "map (rule_at ((h @ [x])[imgs := HArray ds])) (array_at h imgs) =
        map (rule_at h) (array_at h imgs)" by simp
    with rel show ?thesis by simp
  qed
  have new: "rule_at ((h @ [HRule r])[imgs := HArray ds]) (length h) = Some r" for r ds
    using imgs(2) by (simp add: rule_at_update_array is_array_append rule_at_append_new)
  have arr: "array_at ((h @ [x])[imgs := HArray ds]) imgs = ds" for x ds
    using less by (simp add: array_at_update_same)
  have isa: "is_array ((h @ [x])[imgs := HArray ds]) imgs" for x ds
    using imgs(2) by (simp add: is_array_update is_array_append)
  have tk: "take (length h0) ((h @ [x])[imgs := HArray ds]) = h0" for x ds
    using fr imgs(1) frame_length [OF fr] by (simp add: take_update_cancel)
  show ?thesis
    unfolding h_rename_step_nf [OF imgs(2), of c n h0] rename_step_def k e
    using fr imgs(2) rel
    by (simp add: arr isa tk old new ref_imageTag_context_at)
qed

lemma h_rename_step_fresh:
  assumes "is_array h imgs" "\<forall>e \<in> set (array_at h imgs). imgs < e"
  shows "\<forall>e \<in> set (array_at (h_rename_step c n imgs h) imgs). imgs < e"
proof -
  from assms(1) have "imgs < length h" by (simp add: is_array_def)
  with assms(2) show ?thesis
    unfolding h_rename_step_nf [OF assms(1), of c n h]
    by (simp add: array_at_update_same)
qed

lemma h_rename_loop_refines:
  assumes "wf_context h0 c" "take (length h0) h = h0" "length h0 \<le> imgs" "is_array h imgs"
    "map (rule_at h) (array_at h imgs) = map Some d" "\<forall>e \<in> set (array_at h imgs). imgs < e"
  shows "take (length h0) (h_rename_loop c ns imgs h) = h0 \<and>
         is_array (h_rename_loop c ns imgs h) imgs \<and>
         length h \<le> length (h_rename_loop c ns imgs h) \<and>
         map (rule_at (h_rename_loop c ns imgs h)) (array_at (h_rename_loop c ns imgs h) imgs) =
           map Some (rename_loop (context_at h0 c) ns d) \<and>
         (\<forall>e \<in> set (array_at (h_rename_loop c ns imgs h) imgs). imgs < e)"
  using assms(2,4,5,6)
proof (induction ns arbitrary: h d)
  case Nil
  then show ?case by simp
next
  case (Cons n ns)
  note step = h_rename_step_refines [OF assms(1) Cons.prems(1) assms(3) Cons.prems(2,3), of n]
  note fresh = h_rename_step_fresh [OF Cons.prems(2,4), of c n]
  from step fresh
  have "take (length h0) (h_rename_loop c ns imgs (h_rename_step c n imgs h)) = h0 \<and>
         is_array (h_rename_loop c ns imgs (h_rename_step c n imgs h)) imgs \<and>
         length (h_rename_step c n imgs h) \<le> length (h_rename_loop c ns imgs (h_rename_step c n imgs h)) \<and>
         map (rule_at (h_rename_loop c ns imgs (h_rename_step c n imgs h)))
             (array_at (h_rename_loop c ns imgs (h_rename_step c n imgs h)) imgs) =
           map Some (rename_loop (context_at h0 c) ns (rename_step (context_at h0 c) n d)) \<and>
         (\<forall>e \<in> set (array_at (h_rename_loop c ns imgs (h_rename_step c n imgs h)) imgs). imgs < e)"
    by (intro Cons.IH) simp_all
  with step show ?case by simp
qed

lemma map_Some_the: "map f xs = map Some d \<Longrightarrow> map (\<lambda>e. the (f e)) xs = d"
  by (induction xs arbitrary: d) auto

text \<open>All that the claims need of a call, for a well-formed context.\<close>

lemma h_finalizeImageRenames_facts:
  assumes wf: "wf_context h0 c" and run: "h_finalizeImageRenames c ns h0 = (r, h')"
  shows "take (length h0) h' = h0"
    and "length h0 < r" and "r < length h'" and "is_array h' r"
    and "\<exists>derived. array_at h' r =
           (case ref_images c of None \<Rightarrow> [] | Some a \<Rightarrow> array_at h0 a) @ derived \<and>
           (\<forall>e \<in> set derived. length h0 < e)"
    and "rules_at h' r = finalizeImageRenames (context_at h0 c) ns"
proof -
  define imgs where "imgs = length h0"
  define h1 where "h1 = h_rename_loop c ns imgs (h0 @ [HArray []])"
  define ex where "ex = (case ref_images c of None \<Rightarrow> [] | Some a \<Rightarrow> array_at h0 a)"
  define h2 where "h2 = (case ref_images c of None \<Rightarrow> h1 @ [HArray []] | Some a \<Rightarrow> h1)"
  have loop: "take (length h0) h1 = h0 \<and> is_array h1 imgs \<and>
      length (h0 @ [HArray []]) \<le> length h1 \<and>
      map (rule_at h1) (array_at h1 imgs) = map Some (rename_loop (context_at h0 c) ns []) \<and>
      (\<forall>e \<in> set (array_at h1 imgs). imgs < e)"
    unfolding h1_def
    by (rule h_rename_loop_refines [OF wf])
       (simp_all add: imgs_def is_array_def array_at_def)
  then have fr1: "take (length h0) h1 = h0" and arr1: "is_array h1 imgs"
    and len1: "length h0 < length h1"
    and rel1: "map (rule_at h1) (array_at h1 imgs) = map Some (rename_loop (context_at h0 c) ns [])"
    and fresh1: "\<forall>e \<in> set (array_at h1 imgs). imgs < e"
    by simp_all
  from arr1 have imgs1: "imgs < length h1" by (simp add: is_array_def)
  have h2_app: "\<exists>zs. h2 = h1 @ zs"
    by (simp add: h2_def split: option.splits)
  then obtain zs where h2: "h2 = h1 @ zs" ..
  have ex2: "(case ref_images c of None \<Rightarrow> array_at h2 (length h1) | Some a \<Rightarrow> array_at h2 a) = ex"
  proof (cases "ref_images c")
    case None
    then show ?thesis by (simp add: ex_def h2_def array_at_def)
  next
    case (Some a)
    with explicit_frame(1) [OF wf fr1 Some] show ?thesis by (simp add: ex_def h2_def)
  qed
  have der2: "array_at h2 imgs = array_at h1 imgs"
    using imgs1 by (simp add: h2 array_at_append)
  have res: "r = length h2" "h' = h2 @ [HArray (ex @ array_at h1 imgs)]"
    using run ex2 der2 
    unfolding h_finalizeImageRenames_def Let_def imgs_def [symmetric] h1_def [symmetric]
    by (auto simp: h2_def split: option.splits)
  show "take (length h0) h' = h0"
    using fr1 len1 by (simp add: res h2)
  show "length h0 < r" using len1 by (simp add: res h2)
  show "r < length h'" by (simp add: res)
  show "is_array h' r" by (simp add: res is_array_def)
  have arr: "array_at h' r = ex @ array_at h1 imgs"
    by (simp add: res array_at_def)
  with fresh1 show "\<exists>derived. array_at h' r =
           (case ref_images c of None \<Rightarrow> [] | Some a \<Rightarrow> array_at h0 a) @ derived \<and>
           (\<forall>e \<in> set derived. length h0 < e)"
    by (auto simp: ex_def imgs_def)
  have rd: "map (\<lambda>e. the (rule_at h' e)) (array_at h1 imgs) = rename_loop (context_at h0 c) ns []"
  proof -
    have "rule_at h' e = rule_at h1 e" if "e \<in> set (array_at h1 imgs)" for e
    proof -
      from that map_Some_mem [OF rel1] obtain x where "rule_at h1 e = Some x" by blast
      then have "e < length h1" by (rule rule_at_Some_less)
      then show ?thesis by (simp add: res h2 rule_at_append)
    qed
    then have "map (rule_at h') (array_at h1 imgs) = map (rule_at h1) (array_at h1 imgs)"
      by simp
    with rel1 show ?thesis by (simp add: map_Some_the)
  qed
  have re: "map (\<lambda>e. the (rule_at h' e)) ex = explicit_images (context_at h0 c)"
  proof (cases "ref_images c")
    case None
    then show ?thesis by (simp add: ex_def explicit_images_def context_at_def)
  next
    case (Some a)
    have fr': "take (length h0) h' = h0" by fact
    from explicit_frame(2) [OF wf fr' Some]
    have "map (\<lambda>e. the (rule_at h' e)) (array_at h0 a) = rules_at h0 a"
      by (rule map_Some_the)
    then show ?thesis by (simp add: ex_def explicit_images_def context_at_def Some)
  qed
  show "rules_at h' r = finalizeImageRenames (context_at h0 c) ns"
    unfolding rules_at_def arr finalizeImageRenames_def derived_images_def
    by (simp add: rd re)
qed

lemma wf_context_frame:
  assumes "wf_context h0 c" "take (length h0) h = h0"
  shows "wf_context h c"
proof (cases "ref_images c")
  case None
  then show ?thesis by (simp add: wf_context_def)
next
  case (Some a)
  from assms(1) Some have arr: "is_array h0 a" by (simp add: wf_context_def)
  have "rule_at h e \<noteq> None" if "e \<in> set (array_at h0 a)" for e
    using map_Some_mem [OF explicit_frame(2) [OF assms Some] that] by auto
  with explicit_frame(1) [OF assms Some] is_array_frame [OF assms(2) arr] Some
  show ?thesis by (simp add: wf_context_def list_all_iff)
qed

lemma context_at_frame:
  assumes "wf_context h0 c" "take (length h0) h = h0"
  shows "context_at h c = context_at h0 c"
proof (cases "ref_images c")
  case None
  then show ?thesis by (simp add: context_at_def)
next
  case (Some a)
  from explicit_frame(2) [OF assms Some]
  have "map (\<lambda>e. the (rule_at h e)) (array_at h0 a) = rules_at h0 a"
    by (rule map_Some_the)
  with explicit_frame(1) [OF assms Some] have "rules_at h a = rules_at h0 a"
    by (simp add: rules_at_def)
  with Some show ?thesis by (simp add: context_at_def)
qed

text \<open>
  Claim C10. A call of \<^verbatim>\<open>finalizeImageRenames\<close> on a well-formed context leaves every
  object that existed before the call as it was, so the context's \<open>images\<close> array and
  its rule objects are unchanged and the context denotes what it denoted. The array
  returned is a new object; its elements are the addresses held by the context's array, in
  their order, followed by addresses of objects allocated during the call.
\<close>

theorem finalizeImageRenames_frame:
  "wf_context h c \<Longrightarrow> h_finalizeImageRenames c ns h = (r, h') \<Longrightarrow>
     take (length h) h' = h \<and>
     context_at h' c = context_at h c \<and>
     length h \<le> r \<and> r < length h' \<and> is_array h' r \<and>
     (\<exists>derived. array_at h' r =
        (case ref_images c of None \<Rightarrow> [] | Some a \<Rightarrow> array_at h a) @ derived \<and>
        (\<forall>e \<in> set derived. length h \<le> e))"
proof -
  assume wf: "wf_context h c" and run: "h_finalizeImageRenames c ns h = (r, h')"
  note facts = h_finalizeImageRenames_facts [OF wf run]
  from facts(5) obtain derived where
    "array_at h' r = (case ref_images c of None \<Rightarrow> [] | Some a \<Rightarrow> array_at h a) @ derived"
    "\<forall>e \<in> set derived. length h < e" by blast
  then have "\<exists>derived. array_at h' r =
        (case ref_images c of None \<Rightarrow> [] | Some a \<Rightarrow> array_at h a) @ derived \<and>
        (\<forall>e \<in> set derived. length h \<le> e)"
    by (intro exI [of _ derived]) (simp add: less_imp_le)
  with facts(1,2,3,4) context_at_frame [OF wf facts(1)] show ?thesis by simp
qed

text \<open>
  A store with one explicit rule at address 0 and the context's array at address 1.
\<close>

theorem finalizeImageRenames_frame_witness:
  "wf_context
     [HRule \<lparr>name = ''myservice'', newName = Some ''other/myservice'', newTag = None\<rparr>, HArray [0]]
     \<lparr>ref_name = ''c1'', ref_registry = Some ''r'', ref_imageTag = Some ''v2'', ref_images = Some 1\<rparr> \<and>
   h_finalizeImageRenames
     \<lparr>ref_name = ''c1'', ref_registry = Some ''r'', ref_imageTag = Some ''v2'', ref_images = Some 1\<rparr>
     [''myservice'', ''b:x'', ''a'']
     [HRule \<lparr>name = ''myservice'', newName = Some ''other/myservice'', newTag = None\<rparr>, HArray [0]] =
     (5, [HRule \<lparr>name = ''myservice'', newName = Some ''other/myservice'', newTag = None\<rparr>,
          HArray [0],
          HArray [3, 4],
          HRule \<lparr>name = ''b:x'', newName = Some ''r/b'', newTag = None\<rparr>,
          HRule \<lparr>name = ''a'', newName = Some ''r/a'', newTag = Some ''v2''\<rparr>,
          HArray [0, 3, 4]]) \<and>
   (\<exists>derived. [0, 3, 4] = [0] @ derived \<and> (\<forall>e \<in> set derived. (2::nat) \<le> e))"
proof -
  let ?h = "[HRule \<lparr>name = ''myservice'', newName = Some ''other/myservice'', newTag = None\<rparr>, HArray [0]]"
  let ?c = "\<lparr>ref_name = ''c1'', ref_registry = Some ''r'', ref_imageTag = Some ''v2'', ref_images = Some 1\<rparr>"
  let ?h' = "[HRule \<lparr>name = ''myservice'', newName = Some ''other/myservice'', newTag = None\<rparr>,
          HArray [0],
          HArray [3, 4],
          HRule \<lparr>name = ''b:x'', newName = Some ''r/b'', newTag = None\<rparr>,
          HRule \<lparr>name = ''a'', newName = Some ''r/a'', newTag = Some ''v2''\<rparr>,
          HArray [0, 3, 4]]"
  have wf: "wf_context ?h ?c" by code_simp
  have run: "h_finalizeImageRenames ?c [''myservice'', ''b:x'', ''a''] ?h = (5, ?h')"
    by code_simp
  have a: "array_at ?h' 5 = [0, 3, 4]" "array_at ?h 1 = [0]" by code_simp+
  from finalizeImageRenames_frame [OF wf run] wf run a show ?thesis by simp
qed

text \<open>
  Claim C6. A reference that occurs a second time in the sequence of declared images
  changes nothing: the result is that of the sequence without the second occurrence. And
  the function is deterministic also where it could fail to be, on the store: a second
  call, in the store the first call has left, returns an array of the same rules as the
  first, namely the list the pure function computes.
\<close>

theorem finalizeImageRenames_deterministic:
  "finalizeImageRenames c (xs @ n # ys @ n # zs) = finalizeImageRenames c (xs @ n # ys @ zs) \<and>
   (wf_context h cr \<and> h_finalizeImageRenames cr ns h = (r1, h1) \<and>
    h_finalizeImageRenames cr ns h1 = (r2, h2) \<longrightarrow>
      rules_at h1 r1 = finalizeImageRenames (context_at h cr) ns \<and>
      rules_at h2 r2 = rules_at h1 r1)"
proof (intro conjI impI)
  have "rename_loop c (xs @ n # ys @ [n]) [] = rename_loop c (xs @ n # ys) []"
    using rename_step_again [of n "xs @ n # ys" c "[]"]
    by (simp add: rename_loop_append)
  then have "rename_loop c ((xs @ n # ys @ [n]) @ zs) [] = rename_loop c ((xs @ n # ys) @ zs) []"
    by (simp only: rename_loop_append)
  then show "finalizeImageRenames c (xs @ n # ys @ n # zs) = finalizeImageRenames c (xs @ n # ys @ zs)"
    by (simp add: finalizeImageRenames_def derived_images_def)
next
  assume a: "wf_context h cr \<and> h_finalizeImageRenames cr ns h = (r1, h1) \<and>
    h_finalizeImageRenames cr ns h1 = (r2, h2)"
  then have wf: "wf_context h cr" and run1: "h_finalizeImageRenames cr ns h = (r1, h1)"
    and run2: "h_finalizeImageRenames cr ns h1 = (r2, h2)" by simp_all
  note f1 = h_finalizeImageRenames_facts [OF wf run1]
  have wf1: "wf_context h1 cr" using wf f1(1) by (rule wf_context_frame)
  note f2 = h_finalizeImageRenames_facts [OF wf1 run2]
  show first: "rules_at h1 r1 = finalizeImageRenames (context_at h cr) ns" by (rule f1(6))
  have "rules_at h2 r2 = finalizeImageRenames (context_at h1 cr) ns" by (rule f2(6))
  also have "context_at h1 cr = context_at h cr" using wf f1(1) by (rule context_at_frame)
  finally show "rules_at h2 r2 = rules_at h1 r1" using first by simp
qed

text \<open>
  A repeated reference, and two calls in sequence from the empty store.
\<close>

theorem finalizeImageRenames_deterministic_witness:
  "finalizeImageRenames \<lparr>ctx_name = ''dev'', registry = None, imageTag = Some ''v2'', images = None\<rparr>
     ([''a''] @ ''b:x'' # [''c''] @ ''b:x'' # [''d'']) =
   finalizeImageRenames \<lparr>ctx_name = ''dev'', registry = None, imageTag = Some ''v2'', images = None\<rparr>
     ([''a''] @ ''b:x'' # [''c''] @ [''d'']) \<and>
   wf_context [] \<lparr>ref_name = ''dev'', ref_registry = None, ref_imageTag = Some ''v2'', ref_images = None\<rparr> \<and>
   h_finalizeImageRenames
     \<lparr>ref_name = ''dev'', ref_registry = None, ref_imageTag = Some ''v2'', ref_images = None\<rparr>
     [''a'', ''a''] [] =
     (3, [HArray [1], HRule \<lparr>name = ''a'', newName = None, newTag = Some ''v2''\<rparr>, HArray [],
          HArray [1]]) \<and>
   h_finalizeImageRenames
     \<lparr>ref_name = ''dev'', ref_registry = None, ref_imageTag = Some ''v2'', ref_images = None\<rparr>
     [''a'', ''a'']
     [HArray [1], HRule \<lparr>name = ''a'', newName = None, newTag = Some ''v2''\<rparr>, HArray [],
      HArray [1]] =
     (7, [HArray [1], HRule \<lparr>name = ''a'', newName = None, newTag = Some ''v2''\<rparr>, HArray [],
          HArray [1],
          HArray [5], HRule \<lparr>name = ''a'', newName = None, newTag = Some ''v2''\<rparr>, HArray [],
          HArray [5]]) \<and>
   rules_at [HArray [1], HRule \<lparr>name = ''a'', newName = None, newTag = Some ''v2''\<rparr>, HArray [],
          HArray [1],
          HArray [5], HRule \<lparr>name = ''a'', newName = None, newTag = Some ''v2''\<rparr>, HArray [],
          HArray [5]] 7 =
   rules_at [HArray [1], HRule \<lparr>name = ''a'', newName = None, newTag = Some ''v2''\<rparr>, HArray [],
          HArray [1]] 3"
proof -
  let ?c = "\<lparr>ref_name = ''dev'', ref_registry = None, ref_imageTag = Some ''v2'', ref_images = None\<rparr>"
  let ?h1 = "[HArray [1], HRule \<lparr>name = ''a'', newName = None, newTag = Some ''v2''\<rparr>, HArray [],
          HArray [1]]"
  let ?h2 = "[HArray [1], HRule \<lparr>name = ''a'', newName = None, newTag = Some ''v2''\<rparr>, HArray [],
          HArray [1],
          HArray [5], HRule \<lparr>name = ''a'', newName = None, newTag = Some ''v2''\<rparr>, HArray [],
          HArray [5]]"
  have wf: "wf_context [] ?c" by (simp add: wf_context_def)
  have run1: "h_finalizeImageRenames ?c [''a'', ''a''] [] = (3, ?h1)" by code_simp
  have run2: "h_finalizeImageRenames ?c [''a'', ''a''] ?h1 = (7, ?h2)" by code_simp
  from finalizeImageRenames_deterministic
    [of "\<lparr>ctx_name = ''dev'', registry = None, imageTag = Some ''v2'', images = None\<rparr>"
      "[''a'']" "''b:x''" "[''c'']" "[''d'']" "[]" ?c "[''a'', ''a'']" 3 ?h1 7 ?h2]
    wf run1 run2
  show ?thesis by simp
qed

subsection \<open>Layers, collection and finalize\<close>

text \<open>The enumeration of own properties keeps what the container holds.\<close>

lemma set_own_entries: "set (own_entries props) = set props"
  by (auto simp: own_entries_def)

lemma distinct_own_entries:
  assumes "distinct (map fst props)"
  shows "distinct (map fst (own_entries props))"
proof -
  from assms have d: "distinct props" and i: "inj_on fst (set props)"
    by (simp_all add: distinct_map)
  have "distinct (own_entries props)"
    using d by (auto simp: own_entries_def)
  with i show ?thesis
    by (simp add: distinct_map set_own_entries)
qed

lemma map_of_own_entries:
  "distinct (map fst props) \<Longrightarrow> map_of (own_entries props) = map_of props"
  by (simp add: map_of_inject_set distinct_own_entries set_own_entries)

lemma list_all_own_entries: "list_all P (own_entries props) = list_all P props"
  by (simp add: list_all_iff set_own_entries)

lemma layer_at_new: "map_of (layers s) l = None \<Longrightarrow> layer_at s l = new_Layer l"
  by (simp add: layer_at_def)

lemma modify_Inr:
  assumes "(case getLayer l s of
              (None, s') \<Rightarrow> Inl TypeError
            | (Some L, s') \<Rightarrow> Inr (set_layer l (f L) s')) = Inr s''"
  shows "map_of (layers s'') = (map_of (layers s))(l \<mapsto> f (layer_at s l))"
    and "map fst (layers s'') =
       (if l \<in> set (map fst (layers s)) then map fst (layers s) else map fst (layers s) @ [l])"
    and "outputRoot s'' = outputRoot s"
    and "l \<in> set (map fst (layers s)) \<or> \<not> inherited_name l"
proof -
  show k: "l \<in> set (map fst (layers s)) \<or> \<not> inherited_name l"
  proof (cases "map_of (layers s) l")
    case None
    with assms show ?thesis by (simp add: getLayer_def split: if_splits)
  next
    case (Some L)
    then have "map_of (layers s) l \<noteq> None" by simp
    then show ?thesis by (simp add: map_of_eq_None_iff)
  qed
  show "map_of (layers s'') = (map_of (layers s))(l \<mapsto> f (layer_at s l))"
    using assms
    by (auto simp: getLayer_def set_layer_def layer_at_def AList.update_conv' map_add_def
        fun_eq_iff split: option.splits if_splits)
  show "map fst (layers s'') =
       (if l \<in> set (map fst (layers s)) then map fst (layers s) else map fst (layers s) @ [l])"
    using assms
    by (cases "map_of (layers s) l")
       (auto simp: getLayer_def set_layer_def AList.update_keys map_of_eq_None_iff
          rev_image_eqI split: if_splits)
  show "outputRoot s'' = outputRoot s"
    using assms by (auto simp: getLayer_def set_layer_def split: option.splits if_splits)
qed

lemma modify_runs:
  "l \<in> set (map fst (layers s)) \<or> \<not> inherited_name l \<Longrightarrow>
     \<exists>s''. (case getLayer l s of
              (None, s') \<Rightarrow> Inl TypeError
            | (Some L, s') \<Rightarrow> Inr (set_layer l (f L) s')) = Inr s''"
  by (auto simp: getLayer_def map_of_eq_None_iff split: option.splits)

lemma modify_throws:
  "l \<notin> set (map fst (layers s)) \<Longrightarrow> inherited_name l \<Longrightarrow>
     (case getLayer l s of
        (None, s') \<Rightarrow> Inl TypeError
      | (Some L, s') \<Rightarrow> Inr (set_layer l (f L) s')) = Inl TypeError"
  by (auto simp: getLayer_def map_of_eq_None_iff split: option.splits)

lemma list_all_map_of:
  "distinct (map fst ls) \<Longrightarrow>
     list_all (\<lambda>(k, l). Q k l) ls \<longleftrightarrow> (\<forall>k l. map_of ls k = Some l \<longrightarrow> Q k l)"
  by (auto simp: list_all_iff)

lemma modify_ok:
  assumes ok: "archiver_ok s" and f: "\<And>L. layer_name (f L) = layer_name L"
    and run: "(case getLayer l s of
              (None, s') \<Rightarrow> Inl TypeError
            | (Some L, s') \<Rightarrow> Inr (set_layer l (f L) s')) = Inr s''"
  shows "archiver_ok s''"
proof -
  note m = modify_Inr [OF run]
  from ok have d: "distinct (map fst (layers s))" and b: "''base'' \<in> set (map fst (layers s))"
    and a: "list_all (\<lambda>(k, l). layer_name l = k) (layers s)"
    by (simp_all add: archiver_ok_def)
  from a have n: "\<forall>k L. map_of (layers s) k = Some L \<longrightarrow> layer_name L = k"
    unfolding list_all_map_of [OF d] .
  have d': "distinct (map fst (layers s''))" using d by (simp add: m(2))
  have b': "''base'' \<in> set (map fst (layers s''))" using b by (simp add: m(2))
  from ok have "list_all (\<lambda>k. \<not> inherited_name k) (map fst (layers s))"
    by (simp add: archiver_ok_def)
  with m(4) have i': "list_all (\<lambda>k. \<not> inherited_name k) (map fst (layers s''))"
    unfolding m(2) by (auto simp: list_all_iff)
  from n have "layer_name (layer_at s l) = l"
    by (simp add: layer_at_def new_Layer_def split: option.splits)
  with n f have "\<forall>k L. map_of (layers s'') k = Some L \<longrightarrow> layer_name L = k"
    by (simp add: m(1))
  then have "list_all (\<lambda>(k, l). layer_name l = k) (layers s'')"
    unfolding list_all_map_of [OF d'] .
  with d' b' i' show ?thesis
    by (simp add: archiver_ok_def)
qed

lemma modify_no_bases:
  assumes d: "distinct (map fst (layers s))" and nb: "no_bases s"
    and f: "\<And>L. bases (f L) = bases L"
    and run: "(case getLayer l s of
              (None, s') \<Rightarrow> Inl TypeError
            | (Some L, s') \<Rightarrow> Inr (set_layer l (f L) s')) = Inr s''"
  shows "no_bases s''"
proof -
  note m = modify_Inr [OF run]
  have d': "distinct (map fst (layers s''))" using d by (simp add: m(2))
  from nb have n: "\<forall>k L. map_of (layers s) k = Some L \<longrightarrow> bases L = []"
    unfolding no_bases_def list_all_map_of [OF d] .
  then have "bases (layer_at s l) = []"
    by (simp add: layer_at_def new_Layer_def split: option.splits)
  with n f have "\<forall>k L. map_of (layers s'') k = Some L \<longrightarrow> bases L = []"
    by (simp add: m(1))
  then show ?thesis
    unfolding no_bases_def list_all_map_of [OF d'] .
qed

lemma addResource_ok:
  assumes "archiver_ok s" "no_bases s" "addResource ob fname l s = Inr s'"
  shows "archiver_ok s' \<and> no_bases s'"
proof
  show "archiver_ok s'"
    by (rule modify_ok [OF assms(1) _ assms(3) [unfolded addResource_def]]) simp
  from assms(1) have "distinct (map fst (layers s))" by (simp add: archiver_ok_def)
  then show "no_bases s'"
    by (rule modify_no_bases [OF _ assms(2) _ assms(3) [unfolded addResource_def]]) simp
qed

lemma addPatch_ok:
  assumes "archiver_ok s" "no_bases s" "addPatch p fname l s = Inr s'"
  shows "archiver_ok s' \<and> no_bases s'"
proof
  show "archiver_ok s'"
    by (rule modify_ok [OF assms(1) _ assms(3) [unfolded addPatch_def]]) simp
  from assms(1) have "distinct (map fst (layers s))" by (simp add: archiver_ok_def)
  then show "no_bases s'"
    by (rule modify_no_bases [OF _ assms(2) _ assms(3) [unfolded addPatch_def]]) simp
qed

lemma addJSONPatch_Some:
  "addJSONPatch p (Some t) l s =
     (case getLayer (layer_or_base l) s of
        (None, s') \<Rightarrow> Inl TypeError
      | (Some L, s') \<Rightarrow>
          Inr (set_layer (layer_or_base l)
                 (L\<lparr>patchesJSON := set_property (path t) (p, t) (patchesJSON L)\<rparr>) s'))"
  by (simp add: addJSONPatch_def split: prod.splits option.splits)

lemma addJSONPatch_None: "addJSONPatch p None l s = Inl TypeError"
  by (simp add: addJSONPatch_def split: prod.splits option.splits)

lemma addJSONPatch_ok:
  assumes "archiver_ok s" "no_bases s" "addJSONPatch p tgt l s = Inr s'"
  shows "archiver_ok s' \<and> no_bases s'"
proof (cases tgt)
  case None
  with assms(3) show ?thesis by (simp add: addJSONPatch_None)
next
  case (Some t)
  with assms(3) have run: "(case getLayer (layer_or_base l) s of
        (None, s') \<Rightarrow> Inl TypeError
      | (Some L, s') \<Rightarrow>
          Inr (set_layer (layer_or_base l)
                 (L\<lparr>patchesJSON := set_property (path t) (p, t) (patchesJSON L)\<rparr>) s')) = Inr s'"
    by (simp add: addJSONPatch_Some)
  show ?thesis
  proof
    show "archiver_ok s'"
      by (rule modify_ok [OF assms(1) _ run]) simp
    from assms(1) have "distinct (map fst (layers s))" by (simp add: archiver_ok_def)
    then show "no_bases s'"
      by (rule modify_no_bases [OF _ assms(2) _ run]) simp
  qed
qed

lemma classify_ok:
  assumes "archiver_ok (sa run)" "no_bases (sa run)" "classify item run = Inr run'"
  shows "archiver_ok (sa run') \<and> no_bases (sa run') \<and> errors run' = errors run"
  using assms(3) addResource_ok [OF assms(1,2)] addPatch_ok [OF assms(1,2)]
    addJSONPatch_ok [OF assms(1,2)] assms(1,2)
  by (auto simp: classify_def split: if_splits sum.splits)

lemma collect_ok:
  "archiver_ok (sa run) \<Longrightarrow> no_bases (sa run) \<Longrightarrow> collect items run = Inr run' \<Longrightarrow>
     archiver_ok (sa run') \<and> no_bases (sa run') \<and> errors run' = errors run"
proof (induction items arbitrary: run)
  case Nil
  then show ?case by simp
next
  case (Cons item items)
  from Cons.prems(3) obtain run1 where c: "classify item run = Inr run1"
    and rest: "collect items run1 = Inr run'"
    by (auto split: sum.splits)
  from classify_ok [OF Cons.prems(1,2) c] Cons.IH [OF _ _ rest] show ?case by simp
qed

lemma new_SolsaArchiver_ok: "archiver_ok (new_SolsaArchiver root) \<and> no_bases (new_SolsaArchiver root)"
  by (simp add: archiver_ok_def no_bases_def new_SolsaArchiver_def new_Layer_def
      inherited_name_def object_prototype_names_def)

lemma not_inherited_key:
  "archiver_ok s \<Longrightarrow> inherited_name l \<Longrightarrow> l \<notin> set (map fst (layers s))"
  by (auto simp: archiver_ok_def list_all_iff)

lemma finalize_context_ok:
  "archiver_ok s \<Longrightarrow> finalize_context app c s = Inr s' \<Longrightarrow> archiver_ok s'"
  by (rule modify_ok [where f = "\<lambda>L. L\<lparr>bases := bases L @ [''./../base''],
        layer_images := finalizeImageRenames c (getImages app)\<rparr>"])
     (simp_all add: finalize_context_def)

lemma finalize_context_keys:
  assumes "finalize_context app c s = Inr s'"
  shows "set (map fst (layers s')) = insert (ctx_name c) (set (map fst (layers s)))"
  using modify_Inr(2) [OF assms [unfolded finalize_context_def]] by auto

lemma finalize_context_bases:
  assumes "finalize_context app c s = Inr s'"
  shows "bases (layer_at s' l) =
     bases (layer_at s l) @ (if l = ctx_name c then [''./../base''] else [])"
  using modify_Inr(1) [OF assms [unfolded finalize_context_def]]
  by (auto simp: layer_at_def)

lemma finalize_context_root:
  assumes "finalize_context app c s = Inr s'"
  shows "outputRoot s' = outputRoot s"
  using modify_Inr(3) [OF assms [unfolded finalize_context_def]] .

lemma finalize_context_throws:
  assumes "archiver_ok s" "inherited_name (ctx_name c)"
  shows "finalize_context app c s = Inl TypeError"
  unfolding finalize_context_def
  by (rule modify_throws [OF not_inherited_key [OF assms] assms(2)])

lemma finalize_context_runs:
  "\<not> inherited_name (ctx_name c) \<Longrightarrow> \<exists>s'. finalize_context app c s = Inr s'"
  unfolding finalize_context_def by (rule modify_runs) simp

lemma finalize_contexts_Inr:
  "finalize_contexts app cs s = Inr s' \<Longrightarrow>
     (archiver_ok s \<longrightarrow> archiver_ok s') \<and>
     set (map fst (layers s')) = set (map fst (layers s)) \<union> ctx_name ` set cs \<and>
     outputRoot s' = outputRoot s \<and>
     (\<forall>l. bases (layer_at s' l) =
        bases (layer_at s l) @ replicate (count_list (map ctx_name cs) l) ''./../base'')"
proof (induction cs arbitrary: s)
  case Nil
  then show ?case by simp
next
  case (Cons c cs)
  from Cons.prems obtain s1 where c: "finalize_context app c s = Inr s1"
    and rest: "finalize_contexts app cs s1 = Inr s'"
    by (auto split: sum.splits)
  from Cons.IH [OF rest] finalize_context_ok [OF _ c] finalize_context_keys [OF c]
    finalize_context_bases [OF c] finalize_context_root [OF c]
  show ?case
    by (auto simp: replicate_app_Cons_same simp del: set_map)
qed

lemma finalize_contexts_runs:
  "\<forall>c \<in> set cs. \<not> inherited_name (ctx_name c) \<Longrightarrow> \<exists>s'. finalize_contexts app cs s = Inr s'"
proof (induction cs arbitrary: s)
  case Nil
  then show ?case by simp
next
  case (Cons c cs)
  then obtain s1 where "finalize_context app c s = Inr s1"
    using finalize_context_runs [of c app s] by auto
  with Cons show ?case by simp
qed

lemma finalize_contexts_throws:
  "archiver_ok s \<Longrightarrow> \<exists>c \<in> set cs. inherited_name (ctx_name c) \<Longrightarrow>
     finalize_contexts app cs s = Inl TypeError"
proof (induction cs arbitrary: s)
  case Nil
  then show ?case by simp
next
  case (Cons c cs)
  show ?case
  proof (cases "inherited_name (ctx_name c)")
    case True
    with Cons.prems(1) show ?thesis by (simp add: finalize_context_throws)
  next
    case False
    then obtain s1 where s1: "finalize_context app c s = Inr s1"
      using finalize_context_runs [of c app s] by auto
    from False Cons.prems(2) have "\<exists>c \<in> set cs. inherited_name (ctx_name c)" by auto
    with Cons.IH [OF finalize_context_ok [OF Cons.prems(1) s1]] s1 show ?thesis by simp
  qed
qed

lemma no_bases_lookup:
  assumes "distinct (map fst (layers s))" "no_bases s"
  shows "bases (layer_at s l) = []"
proof -
  from assms(2) have "\<forall>k L. map_of (layers s) k = Some L \<longrightarrow> bases L = []"
    unfolding no_bases_def list_all_map_of [OF assms(1)] .
  then show ?thesis
    by (simp add: layer_at_def new_Layer_def split: option.splits)
qed

lemma run_calls_runs:
  "\<forall>w c. \<exists>w'. fsys w c = Inr w' \<Longrightarrow> \<exists>w'. run_calls fsys cs w = Inr w'"
proof (induction cs arbitrary: w)
  case Nil
  then show ?case by simp
next
  case (Cons c cs)
  from Cons.prems obtain w1 where "fsys w c = Inr w1" by blast
  with Cons show ?case by simp
qed

lemma run_calls_throws:
  "c \<in> set cs \<Longrightarrow> \<forall>w. \<exists>e. fsys w c = Inl e \<Longrightarrow> \<exists>e. run_calls fsys cs w = Inl e"
proof (induction cs arbitrary: w)
  case Nil
  then show ?case by simp
next
  case (Cons c' cs)
  show ?case
  proof (cases "fsys w c'")
    case (Inl e)
    then show ?thesis by simp
  next
    case (Inr w1)
    have "c \<noteq> c'"
    proof
      assume "c = c'"
      with Cons.prems(2) obtain e where "fsys w c' = Inl e" by blast
      with Inr show False by simp
    qed
    with Cons.prems(1) have "c \<in> set cs" by simp
    from Cons.IH [OF this Cons.prems(2)] Inr show ?thesis by simp
  qed
qed

lemma kustomizations_in_append:
  "kustomizations_in (xs @ ys) d = kustomizations_in xs d @ kustomizations_in ys d"
  by (simp add: kustomizations_in_def)

lemma kustomizations_in_manifests:
  "kustomizations_in (map (\<lambda>x. (n, g x, Manifest (m x))) xs) d = []"
  by (induction xs) (simp_all add: kustomizations_in_def)

lemma kustomizations_in_layer_files:
  "kustomizations_in (layer_files app l) d = (if layer_name l = d then [kustom app l] else [])"
proof -
  have "kustomizations_in (map (\<lambda>(fname, ob). (layer_name l, fname, Manifest ob)) xs) d = []"
    for xs :: "(string \<times> json) list"
    using kustomizations_in_manifests [of "layer_name l" fst snd xs d]
    by (simp add: case_prod_unfold)
  moreover
  have "kustomizations_in (map (\<lambda>(fname, p, t). (layer_name l, fname, Manifest p)) xs) d = []"
    for xs :: "(string \<times> json \<times> PatchTarget) list"
    using kustomizations_in_manifests [of "layer_name l" fst "\<lambda>x. fst (snd x)" xs d]
    by (simp add: case_prod_unfold)
  ultimately show ?thesis
    by (simp add: layer_files_def kustomizations_in_append) (simp add: kustomizations_in_def)
qed

lemma kustomizations_in_layers:
  assumes "distinct (map fst ls)" "list_all (\<lambda>(k, l). layer_name l = k) ls"
  shows "kustomizations_in (concat (map (\<lambda>(k, l). layer_files app l) ls)) d =
     (case map_of ls d of None \<Rightarrow> [] | Some l \<Rightarrow> [kustom app l])"
  using assms
proof (induction ls)
  case Nil
  then show ?case by (simp add: kustomizations_in_def)
next
  case (Cons p ls)
  obtain k l where p: "p = (k, l)" by (cases p)
  from Cons.prems have name: "layer_name l = k" and d: "distinct (map fst ls)"
    and k: "k \<notin> fst ` set ls" and rest: "list_all (\<lambda>(k, l). layer_name l = k) ls"
    by (simp_all add: p)
  from k have "map_of ls k = None" by (simp add: map_of_eq_None_iff)
  with Cons.IH [OF d rest] name show ?case
    by (simp add: p kustomizations_in_append kustomizations_in_layer_files)
qed

lemma finalize_Inr_contexts:
  "finalize fsys config app s w = Inr (s', files, w') \<Longrightarrow>
     finalize_contexts app (contexts config) s = Inr s'"
  by (auto simp: finalize_def split: sum.splits)

lemma kustomizations_in_finalize:
  assumes ok: "archiver_ok s" and fin: "finalize fsys config app s w = Inr (s', files, w')"
    and d: "d \<in> set (map fst (layers s)) \<union> ctx_name ` set (contexts config)"
  shows "kustomizations_in files d = [kustom app (layer_at s' d)]"
proof -
  from fin have ctx: "finalize_contexts app (contexts config) s = Inr s'"
    by (rule finalize_Inr_contexts)
  from fin ctx have files: "files = concat (map (\<lambda>(k, l). layer_files app l) (own_entries (layers s')))"
    by (auto simp: finalize_def split: sum.splits)
  note c = finalize_contexts_Inr [OF ctx]
  from c ok have ok': "archiver_ok s'" by simp
  then have dist: "distinct (map fst (layers s'))" by (simp add: archiver_ok_def)
  from d c have "d \<in> set (map fst (layers s'))" by simp
  then have "map_of (layers s') d \<noteq> None"
    by (simp add: map_of_eq_None_iff)
  then obtain l where l: "map_of (layers s') d = Some l" by blast
  from ok' have "kustomizations_in (concat (map (\<lambda>(k, l). layer_files app l)
        (own_entries (layers s')))) d =
     (case map_of (own_entries (layers s')) d of None \<Rightarrow> [] | Some l \<Rightarrow> [kustom app l])"
    by (intro kustomizations_in_layers)
       (simp_all add: archiver_ok_def distinct_own_entries list_all_own_entries)
  with l show "kustomizations_in files d = [kustom app (layer_at s' d)]"
    by (simp add: files map_of_own_entries [OF dist] layer_at_def)
qed

lemma count_list_distinct: "distinct xs \<Longrightarrow> x \<in> set xs \<Longrightarrow> count_list xs x = 1"
  by (induction xs) auto

text \<open>
  When \<^verbatim>\<open>finalize\<close> returns and when it throws, from an archiver as the collection of
  resources leaves it.
\<close>

lemma finalize_runs:
  assumes "\<forall>c \<in> set (contexts config). \<not> inherited_name (ctx_name c)"
    and "\<forall>w c. \<exists>w'. fsys w c = Inr w'"
  shows "\<exists>s' files w'. finalize fsys config app s w = Inr (s', files, w')"
proof -
  from finalize_contexts_runs [OF assms(1)] obtain s'
    where s': "finalize_contexts app (contexts config) s = Inr s'" by blast
  from run_calls_runs [OF assms(2)] obtain w'
    where "run_calls fsys (MkdirSync [outputRoot s'] #
        concat (map (\<lambda>(k, l). layer_calls (outputRoot s') app l) (own_entries (layers s')))) w =
      Inr w'" by blast
  with s' show ?thesis by (simp add: finalize_def)
qed

lemma finalize_throws_inherited:
  "archiver_ok s \<Longrightarrow> \<exists>c \<in> set (contexts config). inherited_name (ctx_name c) \<Longrightarrow>
     finalize fsys config app s w = Inl TypeError"
  by (simp add: finalize_def finalize_contexts_throws)

lemma finalize_throws_mkdir:
  assumes "finalize_contexts app (contexts config) s = Inr s'"
    and "(k, l) \<in> set (layers s')"
    and "\<forall>w. \<exists>e. fsys w (MkdirSync [outputRoot s', layer_name l]) = Inl e"
  shows "\<exists>e. finalize fsys config app s w = Inl e"
proof -
  from assms(2) have "(k, l) \<in> set (own_entries (layers s'))"
    by (simp add: set_own_entries)
  then have "MkdirSync [outputRoot s', layer_name l] \<in>
      set (MkdirSync [outputRoot s'] #
        concat (map (\<lambda>(k, l). layer_calls (outputRoot s') app l) (own_entries (layers s'))))"
    by (force simp: layer_calls_def)
  from run_calls_throws [of _ _ fsys w, OF this assms(3)] assms(1) show ?thesis
    by (auto simp: finalize_def)
qed

text \<open>
  Claim C7, amended. Let the resources be collected into a new archiver, let \<^verbatim>\<open>finalize\<close>
  return (it throws for a context named like a member of \<^verbatim>\<open>Object.prototype\<close> and when
  the file system refuses a call, see above), and let the context names of the configuration
  be pairwise distinct and different from \<open>base\<close>. Then exactly one kustomization
  manifest has been written into the directory of every context, and its \<open>bases\<close> is the
  one reference \<^verbatim>\<open>./../base\<close>; and exactly one into the directory \<open>base\<close>, and its
  \<open>bases\<close> is empty.
\<close>

theorem context_layers_one_base:
  assumes "collect items \<lparr>sa = new_SolsaArchiver root, errors = e\<rparr> = Inr run"
    and "finalize fsys config app (sa run) w = Inr (s', files, w')"
    and "distinct (map ctx_name (contexts config))"
    and "''base'' \<notin> ctx_name ` set (contexts config)"
  shows "(\<forall>c \<in> set (contexts config).
            \<exists>k. kustomizations_in files (ctx_name c) = [k] \<and> k_bases k = [''./../base'']) \<and>
         (\<exists>k. kustomizations_in files ''base'' = [k] \<and> k_bases k = [])"
proof -
  from collect_ok [OF _ _ assms(1)] new_SolsaArchiver_ok [of root]
  have ok: "archiver_ok (sa run)" and nb: "no_bases (sa run)" by simp_all
  from ok have d: "distinct (map fst (layers (sa run)))"
    and b: "''base'' \<in> set (map fst (layers (sa run)))"
    by (simp_all add: archiver_ok_def)
  have ctx: "finalize_contexts app (contexts config) (sa run) = Inr s'"
    using assms(2) by (rule finalize_Inr_contexts)
  have bases: "bases (layer_at s' l) =
      replicate (count_list (map ctx_name (contexts config)) l) ''./../base''" for l
    using finalize_contexts_Inr [OF ctx] by (simp add: no_bases_lookup [OF d nb])
  have "\<exists>k. kustomizations_in files (ctx_name c) = [k] \<and> k_bases k = [''./../base'']"
    if c: "c \<in> set (contexts config)" for c
  proof -
    from c have "count_list (map ctx_name (contexts config)) (ctx_name c) = 1"
      by (intro count_list_distinct assms(3)) simp
    with bases [of "ctx_name c"] have "k_bases (kustom app (layer_at s' (ctx_name c))) = [''./../base'']"
      by (simp add: kustom_def)
    moreover from c have "kustomizations_in files (ctx_name c) = [kustom app (layer_at s' (ctx_name c))]"
      by (intro kustomizations_in_finalize [OF ok assms(2)]) simp
    ultimately show ?thesis by simp
  qed
  moreover
  have "\<exists>k. kustomizations_in files ''base'' = [k] \<and> k_bases k = []"
  proof -
    from assms(4) have "count_list (map ctx_name (contexts config)) ''base'' = 0"
      by (simp add: count_list_0_iff)
    with bases [of "''base''"] have "k_bases (kustom app (layer_at s' ''base'')) = []"
      by (simp add: kustom_def)
    moreover from b have "kustomizations_in files ''base'' = [kustom app (layer_at s' ''base'')]"
      by (intro kustomizations_in_finalize [OF ok assms(2)]) simp
    ultimately show ?thesis by simp
  qed
  ultimately show ?thesis by blast
qed

text \<open>
  Claim C7 as stated, for any configuration, fails: \<^verbatim>\<open>finalize\<close> pushes one reference
  for every entry of \<^verbatim>\<open>config.contexts\<close> onto the layer the entry names. With the
  contexts \<open>dev\<close>, \<open>dev\<close> and \<open>base\<close> it returns, and the manifest of \<open>dev\<close>
  has two references and the manifest of \<open>base\<close> has one.
\<close>

theorem context_layers_one_base_counterexample:
  "finalize accepting_fs
      \<lparr>contexts = [\<lparr>ctx_name = ''dev'', registry = None, imageTag = None, images = None\<rparr>,
                   \<lparr>ctx_name = ''dev'', registry = None, imageTag = None, images = None\<rparr>,
                   \<lparr>ctx_name = ''base'', registry = None, imageTag = None, images = None\<rparr>],
       current_context = None\<rparr>
      \<lparr>getImages = [], app_name = None\<rparr> (new_SolsaArchiver ''solsa'') () =
     Inr (\<lparr>outputRoot = ''solsa'',
           layers =
             [(''base'',
               \<lparr>layer_name = ''base'', resources = [], bases = [''./../base''], patches = [],
                patchesJSON = [], layer_images = []\<rparr>),
              (''dev'',
               \<lparr>layer_name = ''dev'', resources = [], bases = [''./../base'', ''./../base''],
                patches = [], patchesJSON = [], layer_images = []\<rparr>)]\<rparr>,
          [(''base'', ''kustomization.yaml'',
            KustomizationFile
              \<lparr>apiVersion = ''kustomize.config.k8s.io/v1beta1'', kind = ''Kustomization'',
               k_bases = [''./../base''], k_resources = [], k_patches = [],
               patchesJson6902 = [], k_images = [], commonAnnotations = None\<rparr>),
           (''dev'', ''kustomization.yaml'',
            KustomizationFile
              \<lparr>apiVersion = ''kustomize.config.k8s.io/v1beta1'', kind = ''Kustomization'',
               k_bases = [''./../base'', ''./../base''], k_resources = [], k_patches = [],
               patchesJson6902 = [], k_images = [], commonAnnotations = None\<rparr>)],
          ())"
  by code_simp

text \<open>
  Two contexts, one of which also holds a resource of the application.
\<close>

theorem context_layers_one_base_witness:
  "collect
     [\<lparr>obj = JObj [], JSONPatch = JUndefined, JSONPatchTarget = None, patch = JUndefined,
       item_name = ''svc.yaml'', layer = Some ''dev''\<rparr>]
     \<lparr>sa = new_SolsaArchiver ''solsa'', errors = 0\<rparr> =
     Inr \<lparr>sa = \<lparr>outputRoot = ''solsa'',
                 layers = [(''base'', new_Layer ''base''),
                           (''dev'', (new_Layer ''dev'')\<lparr>resources := [(''svc.yaml'', JObj [])]\<rparr>)]\<rparr>,
          errors = 0\<rparr> \<and>
   distinct (map ctx_name
     [\<lparr>ctx_name = ''dev'', registry = None, imageTag = None, images = None\<rparr>,
      \<lparr>ctx_name = ''prod'', registry = None, imageTag = None, images = None\<rparr>]) \<and>
   ''base'' \<notin> ctx_name `
     set [\<lparr>ctx_name = ''dev'', registry = None, imageTag = None, images = None\<rparr>,
          \<lparr>ctx_name = ''prod'', registry = None, imageTag = None, images = None\<rparr>] \<and>
   (\<exists>s' files w'.
      finalize accepting_fs
        \<lparr>contexts = [\<lparr>ctx_name = ''dev'', registry = None, imageTag = None, images = None\<rparr>,
                     \<lparr>ctx_name = ''prod'', registry = None, imageTag = None, images = None\<rparr>],
         current_context = None\<rparr>
        \<lparr>getImages = [], app_name = None\<rparr>
        \<lparr>outputRoot = ''solsa'',
         layers = [(''base'', new_Layer ''base''),
                   (''dev'', (new_Layer ''dev'')\<lparr>resources := [(''svc.yaml'', JObj [])]\<rparr>)]\<rparr>
        () = Inr (s', files, w') \<and>
      map k_bases (kustomizations_in files ''dev'') = [[''./../base'']] \<and>
      map k_bases (kustomizations_in files ''prod'') = [[''./../base'']] \<and>
      map k_bases (kustomizations_in files ''base'') = [[]])"
proof -
  let ?items = "[\<lparr>obj = JObj [], JSONPatch = JUndefined, JSONPatchTarget = None, patch = JUndefined,
       item_name = ''svc.yaml'', layer = Some ''dev''\<rparr>]"
  let ?run = "\<lparr>sa = \<lparr>outputRoot = ''solsa'',
                 layers = [(''base'', new_Layer ''base''),
                           (''dev'', (new_Layer ''dev'')\<lparr>resources := [(''svc.yaml'', JObj [])]\<rparr>)]\<rparr>,
          errors = 0\<rparr>"
  let ?dev = "\<lparr>ctx_name = ''dev'', registry = None, imageTag = None, images = None\<rparr>"
  let ?prod = "\<lparr>ctx_name = ''prod'', registry = None, imageTag = None, images = None\<rparr>"
  let ?config = "\<lparr>contexts = [?dev, ?prod], current_context = None\<rparr>"
  let ?app = "\<lparr>getImages = [], app_name = None\<rparr>"
  have c: "collect ?items \<lparr>sa = new_SolsaArchiver ''solsa'', errors = 0\<rparr> = Inr ?run"
    by code_simp
  have d: "distinct (map ctx_name (contexts ?config))" by simp
  have b: "''base'' \<notin> ctx_name ` set (contexts ?config)" by simp
  have "\<forall>c \<in> set (contexts ?config). \<not> inherited_name (ctx_name c)"
    by (simp add: inherited_name_def object_prototype_names_def)
  moreover have "\<forall>w c. \<exists>w'. accepting_fs w c = Inr w'"
    by (simp add: accepting_fs_def)
  ultimately obtain s' files w'
    where f: "finalize accepting_fs ?config ?app (sa ?run) () = Inr (s', files, w')"
    using finalize_runs [of ?config accepting_fs ?app "sa ?run" "()"] by blast
  from context_layers_one_base [OF c f d b]
  have "map k_bases (kustomizations_in files ''dev'') = [[''./../base'']]"
    "map k_bases (kustomizations_in files ''prod'') = [[''./../base'']]"
    "map k_bases (kustomizations_in files ''base'') = [[]]"
    by auto
  with f have "finalize accepting_fs ?config ?app (sa ?run) () = Inr (s', files, w') \<and>
      map k_bases (kustomizations_in files ''dev'') = [[''./../base'']] \<and>
      map k_bases (kustomizations_in files ''prod'') = [[''./../base'']] \<and>
      map k_bases (kustomizations_in files ''base'') = [[]]"
    by simp
  then have "\<exists>s' files w'.
      finalize accepting_fs ?config ?app (sa ?run) () = Inr (s', files, w') \<and>
      map k_bases (kustomizations_in files ''dev'') = [[''./../base'']] \<and>
      map k_bases (kustomizations_in files ''prod'') = [[''./../base'']] \<and>
      map k_bases (kustomizations_in files ''base'') = [[]]"
    by (intro exI)
  with c d b show ?thesis by simp
qed

lemma collect_append:
  "collect (xs @ ys) run =
     (case collect xs run of Inl e \<Rightarrow> Inl e | Inr run' \<Rightarrow> collect ys run')"
  by (induction xs arbitrary: run) (auto split: sum.splits)

lemma modify_not_inherited:
  assumes "\<not> inherited_name l"
  shows "\<exists>s''. (case getLayer l s of
              (None, s') \<Rightarrow> Inl TypeError
            | (Some L, s') \<Rightarrow> Inr (set_layer l (f L) s')) = Inr s'' \<and>
           map_of (layers s'') = (map_of (layers s))(l \<mapsto> f (layer_at s l))"
proof -
  from assms obtain s'' where run: "(case getLayer l s of
              (None, s') \<Rightarrow> Inl TypeError
            | (Some L, s') \<Rightarrow> Inr (set_layer l (f L) s')) = Inr s''"
    using modify_runs [of l s f] by blast
  with modify_Inr(1) [OF run] show ?thesis by blast
qed

text \<open>When an item with a truthy property is not added.\<close>

lemma classify_not_added:
  "js_truthy (obj item) \<Longrightarrow> item_name item = ''__proto__'' \<Longrightarrow>
     layer_or_base (layer item) \<in> set (map fst (layers (sa run))) \<Longrightarrow>
     distinct (map fst (layers (sa run))) \<Longrightarrow>
     classify item run = Inr run"
  "\<not> js_truthy (obj item) \<Longrightarrow> js_truthy (JSONPatch item) \<Longrightarrow> JSONPatchTarget item = None \<Longrightarrow>
     classify item run = Inl TypeError"
  "js_truthy (obj item) \<or> js_truthy (JSONPatch item) \<or> js_truthy (patch item) \<Longrightarrow>
     inherited_name (layer_or_base (layer item)) \<Longrightarrow>
     layer_or_base (layer item) \<notin> set (map fst (layers (sa run))) \<Longrightarrow>
     classify item run = Inl TypeError"
proof -
  show "classify item run = Inr run"
    if "js_truthy (obj item)" "item_name item = ''__proto__''"
      "layer_or_base (layer item) \<in> set (map fst (layers (sa run)))"
      "distinct (map fst (layers (sa run)))"
  proof -
    from that(3) have "map_of (layers (sa run)) (layer_or_base (layer item)) \<noteq> None"
      by (simp add: map_of_eq_None_iff)
    then obtain L where L: "map_of (layers (sa run)) (layer_or_base (layer item)) = Some L"
      by blast
    with that(4) have "AList.update (layer_or_base (layer item)) L (layers (sa run)) = layers (sa run)"
      by (simp add: AList.update_triv)
    with that(1,2) L show ?thesis
      by (simp add: classify_def addResource_def getLayer_def set_layer_def set_property_def)
  qed
  show "classify item run = Inl TypeError"
    if "\<not> js_truthy (obj item)" "js_truthy (JSONPatch item)" "JSONPatchTarget item = None"
    using that by (simp add: classify_def addJSONPatch_None)
  show "classify item run = Inl TypeError"
    if "js_truthy (obj item) \<or> js_truthy (JSONPatch item) \<or> js_truthy (patch item)"
      "inherited_name (layer_or_base (layer item))"
      "layer_or_base (layer item) \<notin> set (map fst (layers (sa run)))"
  proof -
    from that(3) have "map_of (layers (sa run)) (layer_or_base (layer item)) = None"
      by (simp add: map_of_eq_None_iff)
    with that(1,2) show ?thesis
      by (auto simp: classify_def addResource_def addPatch_def addJSONPatch_def getLayer_def)
  qed
qed

text \<open>
  Claim C9, amended. Take the item that the loop reaches in the state \<open>run\<close>, after the
  items \<open>before\<close>, and let its layer (\<open>base\<close> by default) not be named like a member
  of \<^verbatim>\<open>Object.prototype\<close>. The loop looks at \<^verbatim>\<open>obj\<close>, then \<^verbatim>\<open>JSONPatch\<close>, then
  \<^verbatim>\<open>patch\<close>, and stores the item under the first of them that is truthy, and only
  there: as a resource or as a patch under its name, when the name is not \<^verbatim>\<open>__proto__\<close>;
  as a JSON patch under the path of the target it carries, when it carries one and the path
  is not \<^verbatim>\<open>__proto__\<close>. The layers are then as before but for that one container of that
  one layer, and the warning counter is as before. An item none of whose three properties
  is truthy changes nothing: the state after it is the state before it, there is no error,
  and the whole loop runs as if the item had not been yielded.
\<close>

theorem collect_first_truthy:
  "(collect before run0 = Inr run \<and> js_truthy (obj item) \<and>
    \<not> inherited_name (layer_or_base (layer item)) \<and> item_name item \<noteq> ''__proto__'' \<longrightarrow>
      (\<exists>run'. collect (before @ [item]) run0 = Inr run' \<and> errors run' = errors run \<and>
         map_of (layers (sa run')) =
           (map_of (layers (sa run)))(layer_or_base (layer item) \<mapsto>
              (layer_at (sa run) (layer_or_base (layer item)))\<lparr>resources :=
                 AList.update (item_name item) (obj item)
                   (resources (layer_at (sa run) (layer_or_base (layer item))))\<rparr>))) \<and>
   (collect before run0 = Inr run \<and> \<not> js_truthy (obj item) \<and> js_truthy (JSONPatch item) \<and>
    \<not> inherited_name (layer_or_base (layer item)) \<and> JSONPatchTarget item = Some t \<and>
    path t \<noteq> ''__proto__'' \<longrightarrow>
      (\<exists>run'. collect (before @ [item]) run0 = Inr run' \<and> errors run' = errors run \<and>
         map_of (layers (sa run')) =
           (map_of (layers (sa run)))(layer_or_base (layer item) \<mapsto>
              (layer_at (sa run) (layer_or_base (layer item)))\<lparr>patchesJSON :=
                 AList.update (path t) (JSONPatch item, t)
                   (patchesJSON (layer_at (sa run) (layer_or_base (layer item))))\<rparr>))) \<and>
   (collect before run0 = Inr run \<and> \<not> js_truthy (obj item) \<and> \<not> js_truthy (JSONPatch item) \<and>
    js_truthy (patch item) \<and>
    \<not> inherited_name (layer_or_base (layer item)) \<and> item_name item \<noteq> ''__proto__'' \<longrightarrow>
      (\<exists>run'. collect (before @ [item]) run0 = Inr run' \<and> errors run' = errors run \<and>
         map_of (layers (sa run')) =
           (map_of (layers (sa run)))(layer_or_base (layer item) \<mapsto>
              (layer_at (sa run) (layer_or_base (layer item)))\<lparr>patches :=
                 AList.update (item_name item) (patch item)
                   (patches (layer_at (sa run) (layer_or_base (layer item))))\<rparr>))) \<and>
   (\<not> js_truthy (obj item) \<and> \<not> js_truthy (JSONPatch item) \<and> \<not> js_truthy (patch item) \<longrightarrow>
      classify item run = Inr run \<and>
      collect (before @ item # after) run0 = collect (before @ after) run0)"
proof (intro conjI impI)
  let ?l = "layer_or_base (layer item)"
  {
    assume a: "collect before run0 = Inr run \<and> js_truthy (obj item) \<and>
      \<not> inherited_name ?l \<and> item_name item \<noteq> ''__proto__''"
    from a modify_not_inherited [where l = ?l and s = "sa run" and f =
        "\<lambda>L. L\<lparr>resources := set_property (item_name item) (obj item) (resources L)\<rparr>"]
    obtain s'' where "addResource (obj item) (item_name item) (layer item) (sa run) = Inr s''"
      and "map_of (layers s'') = (map_of (layers (sa run)))(?l \<mapsto>
          (layer_at (sa run) ?l)\<lparr>resources := AList.update (item_name item) (obj item)
             (resources (layer_at (sa run) ?l))\<rparr>)"
      by (auto simp: addResource_def set_property_def)
    with a show "\<exists>run'. collect (before @ [item]) run0 = Inr run' \<and> errors run' = errors run \<and>
         map_of (layers (sa run')) = (map_of (layers (sa run)))(?l \<mapsto>
            (layer_at (sa run) ?l)\<lparr>resources := AList.update (item_name item) (obj item)
               (resources (layer_at (sa run) ?l))\<rparr>)"
      by (simp add: collect_append classify_def)
  }
  {
    assume a: "collect before run0 = Inr run \<and> \<not> js_truthy (obj item) \<and>
      js_truthy (JSONPatch item) \<and> \<not> inherited_name ?l \<and> JSONPatchTarget item = Some t \<and>
      path t \<noteq> ''__proto__''"
    from a modify_not_inherited [where l = ?l and s = "sa run" and f =
        "\<lambda>L. L\<lparr>patchesJSON := set_property (path t) (JSONPatch item, t) (patchesJSON L)\<rparr>"]
    obtain s'' where "addJSONPatch (JSONPatch item) (Some t) (layer item) (sa run) = Inr s''"
      and "map_of (layers s'') = (map_of (layers (sa run)))(?l \<mapsto>
          (layer_at (sa run) ?l)\<lparr>patchesJSON := AList.update (path t) (JSONPatch item, t)
             (patchesJSON (layer_at (sa run) ?l))\<rparr>)"
      by (auto simp: addJSONPatch_Some set_property_def)
    with a show "\<exists>run'. collect (before @ [item]) run0 = Inr run' \<and> errors run' = errors run \<and>
         map_of (layers (sa run')) = (map_of (layers (sa run)))(?l \<mapsto>
            (layer_at (sa run) ?l)\<lparr>patchesJSON := AList.update (path t) (JSONPatch item, t)
               (patchesJSON (layer_at (sa run) ?l))\<rparr>)"
      by (simp add: collect_append classify_def)
  }
  {
    assume a: "collect before run0 = Inr run \<and> \<not> js_truthy (obj item) \<and>
      \<not> js_truthy (JSONPatch item) \<and> js_truthy (patch item) \<and>
      \<not> inherited_name ?l \<and> item_name item \<noteq> ''__proto__''"
    from a modify_not_inherited [where l = ?l and s = "sa run" and f =
        "\<lambda>L. L\<lparr>patches := set_property (item_name item) (patch item) (patches L)\<rparr>"]
    obtain s'' where "addPatch (patch item) (item_name item) (layer item) (sa run) = Inr s''"
      and "map_of (layers s'') = (map_of (layers (sa run)))(?l \<mapsto>
          (layer_at (sa run) ?l)\<lparr>patches := AList.update (item_name item) (patch item)
             (patches (layer_at (sa run) ?l))\<rparr>)"
      by (auto simp: addPatch_def set_property_def)
    with a show "\<exists>run'. collect (before @ [item]) run0 = Inr run' \<and> errors run' = errors run \<and>
         map_of (layers (sa run')) = (map_of (layers (sa run)))(?l \<mapsto>
            (layer_at (sa run) ?l)\<lparr>patches := AList.update (item_name item) (patch item)
               (patches (layer_at (sa run) ?l))\<rparr>)"
      by (simp add: collect_append classify_def)
  }
  {
    assume a: "\<not> js_truthy (obj item) \<and> \<not> js_truthy (JSONPatch item) \<and> \<not> js_truthy (patch item)"
    then show c: "classify item run = Inr run"
      by (simp add: classify_def)
    from a have "classify item r = Inr r" for r
      by (simp add: classify_def)
    then show "collect (before @ item # after) run0 = collect (before @ after) run0"
      by (simp add: collect_append split: sum.splits)
  }
qed

text \<open>
  Claim C9 as stated, for every item, fails. A resource named \<^verbatim>\<open>__proto__\<close> is not
  stored, and nothing says so; a JSON patch without its target, and a resource for a layer
  named \<^verbatim>\<open>constructor\<close>, end the loop with a \<^verbatim>\<open>TypeError\<close>.
\<close>

theorem collect_first_truthy_counterexample:
  "js_truthy (JObj []) \<and>
   classify
     \<lparr>obj = JObj [], JSONPatch = JUndefined, JSONPatchTarget = None, patch = JUndefined,
      item_name = ''__proto__'', layer = None\<rparr>
     \<lparr>sa = new_SolsaArchiver ''solsa'', errors = 0\<rparr> =
     Inr \<lparr>sa = new_SolsaArchiver ''solsa'', errors = 0\<rparr> \<and>
   \<not> js_truthy JUndefined \<and> js_truthy (JArr []) \<and>
   classify
     \<lparr>obj = JUndefined, JSONPatch = JArr [], JSONPatchTarget = None, patch = JUndefined,
      item_name = ''expose.yaml'', layer = None\<rparr>
     \<lparr>sa = new_SolsaArchiver ''solsa'', errors = 0\<rparr> = Inl TypeError \<and>
   classify
     \<lparr>obj = JObj [], JSONPatch = JUndefined, JSONPatchTarget = None, patch = JUndefined,
      item_name = ''svc.yaml'', layer = Some ''constructor''\<rparr>
     \<lparr>sa = new_SolsaArchiver ''solsa'', errors = 0\<rparr> = Inl TypeError"
  by code_simp

text \<open>
  An item with all three properties truthy is stored as a resource only, in a layer made
  for it; an item with \<^verbatim>\<open>undefined\<close>, \<^verbatim>\<open>null\<close> and the empty string is ignored, and makes
  no layer.
\<close>

theorem collect_first_truthy_witness:
  "collect [] \<lparr>sa = new_SolsaArchiver ''solsa'', errors = 0\<rparr> =
     Inr \<lparr>sa = new_SolsaArchiver ''solsa'', errors = 0\<rparr> \<and>
   js_truthy (JObj []) \<and> \<not> inherited_name (layer_or_base (Some ''dev'')) \<and>
   ''svc.yaml'' \<noteq> ''__proto__'' \<and>
   (\<exists>run'. collect
      ([] @ [\<lparr>obj = JObj [], JSONPatch = JArr [], JSONPatchTarget = None, patch = JObj [],
              item_name = ''svc.yaml'', layer = Some ''dev''\<rparr>])
      \<lparr>sa = new_SolsaArchiver ''solsa'', errors = 0\<rparr> = Inr run' \<and> errors run' = 0 \<and>
      map_of (layers (sa run')) ''dev'' =
        Some ((new_Layer ''dev'')\<lparr>resources := [(''svc.yaml'', JObj [])]\<rparr>) \<and>
      map_of (layers (sa run')) ''base'' = Some (new_Layer ''base'')) \<and>
   \<not> js_truthy JUndefined \<and> \<not> js_truthy JNull \<and> \<not> js_truthy (JStr []) \<and>
   classify
      \<lparr>obj = JUndefined, JSONPatch = JNull, JSONPatchTarget = None, patch = JStr [],
       item_name = ''q.yaml'', layer = Some ''dev''\<rparr>
      \<lparr>sa = new_SolsaArchiver ''solsa'', errors = 0\<rparr> =
     Inr \<lparr>sa = new_SolsaArchiver ''solsa'', errors = 0\<rparr>"
proof -
  let ?i1 = "\<lparr>obj = JObj [], JSONPatch = JArr [], JSONPatchTarget = None, patch = JObj [],
       item_name = ''svc.yaml'', layer = Some ''dev''\<rparr>"
  let ?i2 = "\<lparr>obj = JUndefined, JSONPatch = JNull, JSONPatchTarget = None, patch = JStr [],
       item_name = ''q.yaml'', layer = Some ''dev''\<rparr>"
  let ?run = "\<lparr>sa = new_SolsaArchiver ''solsa'', errors = 0\<rparr>"
  let ?t = "\<lparr>path = [], target = JNull\<rparr>"
  have n: "\<not> inherited_name (layer_or_base (Some ''dev''))"
    by (simp add: inherited_name_def object_prototype_names_def layer_or_base_def)
  have l: "layer_at (new_SolsaArchiver ''solsa'') ''dev'' = new_Layer ''dev''"
    "map_of (layers (new_SolsaArchiver ''solsa'')) ''base'' = Some (new_Layer ''base'')"
    by (simp_all add: layer_at_def new_SolsaArchiver_def)
  from n collect_first_truthy [of "[]" ?run ?run ?i1 ?t "[]"]
  obtain run' where r: "collect ([] @ [?i1]) ?run = Inr run'" "errors run' = 0"
    "map_of (layers (sa run')) =
       (map_of (layers (new_SolsaArchiver ''solsa'')))(''dev'' \<mapsto>
          (new_Layer ''dev'')\<lparr>resources := AList.update ''svc.yaml'' (JObj []) []\<rparr>)"
    by (auto simp: layer_or_base_def l new_Layer_def)
  from r(3) have "map_of (layers (sa run')) ''dev'' =
        Some ((new_Layer ''dev'')\<lparr>resources := [(''svc.yaml'', JObj [])]\<rparr>)"
    "map_of (layers (sa run')) ''base'' = Some (new_Layer ''base'')"
    by (simp_all add: l new_Layer_def)
  with r have "\<exists>run'. collect ([] @ [?i1]) ?run = Inr run' \<and> errors run' = 0 \<and>
      map_of (layers (sa run')) ''dev'' =
        Some ((new_Layer ''dev'')\<lparr>resources := [(''svc.yaml'', JObj [])]\<rparr>) \<and>
      map_of (layers (sa run')) ''base'' = Some (new_Layer ''base'')"
    by (intro exI [of _ run']) simp
  moreover from collect_first_truthy [of "[]" ?run ?run ?i2 ?t "[]"]
  have "classify ?i2 ?run = Inr ?run" by simp
  ultimately show ?thesis using n by simp
qed

subsection \<open>The configuration\<close>

text \<open>
  Where \<^verbatim>\<open>init\<close> does fall back to an empty context list: when loading throws, and
  when the loaded object has no array \<^verbatim>\<open>contexts\<close>.
\<close>

lemma init_fallback:
  "loaded = LoadThrows \<or> loaded = Loaded (YObject None cur) \<Longrightarrow>
     \<exists>c. init argv_context kubectl loaded errs =
            (CObject c, Suc (snd (init_context argv_context kubectl errs))) \<and> contexts c = []"
  by (auto simp: init_def split: prod.splits)

text \<open>
  Claim C8 at an empty configuration file, for which the loader returns \<^verbatim>\<open>undefined\<close>:
  the warning is counted, but \<^verbatim>\<open>init\<close> returns \<^verbatim>\<open>undefined\<close> and not a configuration
  with an empty context list, and the yaml command then stops with a \<^verbatim>\<open>TypeError\<close>.
\<close>

theorem init_empty_document:
  "init argv_context kubectl (Loaded YUndefined) errs =
     (CUndefined, Suc (snd (init_context argv_context kubectl errs))) \<and>
   yamlCommand fsys output CUndefined app items root errs' w = Inl TypeError"
  by (simp add: init_def yamlCommand_def yaml_warnings_def split: prod.splits)

end
